theory Spec2Isabelle
  imports Main
begin

text \<open>
  A model of \<^verbatim>\<open>wrangle.py\<close>, which reads the nodes and ways of an OpenStreetMap export, cleans
  city names, street names and postal codes, and writes five tables. The first part follows
  the program function by function; the second names the notions the statements use; the
  third proves the statements.
\<close>

section \<open>Strings and character classes\<close>

text \<open>
  The program is Python 3: a string is a sequence of code points. The model uses
  \<^typ>\<open>string\<close>, so it covers the strings whose code points are below 256; on these the
  character classes below are the ones of Python's \<^verbatim>\<open>re\<close> module for \<^verbatim>\<open>str\<close> patterns
  and of \<^verbatim>\<open>str.isspace\<close>.
\<close>

definition codepoint :: "char \<Rightarrow> nat" where
  "codepoint c = of_char c"

definition LF :: char where
  "LF = CHR 0x0A"

definition is_space :: "char \<Rightarrow> bool" where
  \<comment> \<open>\<^verbatim>\<open>\s\<close> and \<^verbatim>\<open>str.isspace\<close>: TAB, LF, VT, FF, CR, FS, GS, RS, US, space, NEL, NBSP\<close>
  "is_space c \<longleftrightarrow> codepoint c \<in> {9, 10, 11, 12, 13, 28, 29, 30, 31, 32, 133, 160}"

definition is_digit :: "char \<Rightarrow> bool" where
  \<comment> \<open>\<^verbatim>\<open>\d\<close>\<close>
  "is_digit c \<longleftrightarrow> 48 \<le> codepoint c \<and> codepoint c \<le> 57"

definition is_word :: "char \<Rightarrow> bool" where
  \<comment> \<open>\<^verbatim>\<open>\w\<close>: alphanumeric code points and the underscore\<close>
  "is_word c \<longleftrightarrow>
     is_digit c \<or> (65 \<le> codepoint c \<and> codepoint c \<le> 90) \<or> codepoint c = 95 \<or> (97 \<le> codepoint c \<and> codepoint c \<le> 122)
     \<or> codepoint c \<in> {170, 178, 179, 181, 185, 186, 188, 189, 190}
     \<or> (192 \<le> codepoint c \<and> codepoint c \<le> 214) \<or> (216 \<le> codepoint c \<and> codepoint c \<le> 246) \<or> 248 \<le> codepoint c"

definition is_ascii_letter :: "char \<Rightarrow> bool" where
  "is_ascii_letter c \<longleftrightarrow> (65 \<le> codepoint c \<and> codepoint c \<le> 90) \<or> (97 \<le> codepoint c \<and> codepoint c \<le> 122)"

definition nonspace :: "char \<Rightarrow> bool" where
  \<comment> \<open>\<^verbatim>\<open>\S\<close>\<close>
  "nonspace c \<longleftrightarrow> \<not> is_space c"

text \<open>\<^verbatim>\<open>str.split()\<close> without arguments: the maximal runs of non-whitespace characters.\<close>

fun split_acc :: "string \<Rightarrow> string \<Rightarrow> string list" where
  "split_acc cur [] = (if cur = [] then [] else [cur])"
| "split_acc cur (c # cs) =
     (if is_space c then (if cur = [] then [] else [cur]) @ split_acc [] cs
      else split_acc (cur @ [c]) cs)"

definition str_split :: "string \<Rightarrow> string list" where
  "str_split s = split_acc [] s"

section \<open>Regular expressions\<close>

text \<open>
  The fragment of \<^verbatim>\<open>re\<close> that the program's patterns use. \<open>ends r s i\<close> lists the positions
  where a match of \<open>r\<close> that starts at position \<open>i\<close> of \<open>s\<close> can end, in the order in which the
  backtracking matcher tries them (greedy operators first take the most).
\<close>

datatype regex =
    Cls "char \<Rightarrow> bool"  \<comment> \<open>one character of a class, or a literal\<close>
  | Bol                         \<comment> \<open>\<^verbatim>\<open>^\<close>\<close>
  | Eol                         \<comment> \<open>\<^verbatim>\<open>$\<close>\<close>
  | WordB                       \<comment> \<open>\<^verbatim>\<open>\b\<close>\<close>
  | Cat regex regex
  | Opt regex                   \<comment> \<open>\<^verbatim>\<open>r?\<close>\<close>
  | Plus "char \<Rightarrow> bool" \<comment> \<open>\<^verbatim>\<open>c+\<close> on a class\<close>
  | Rep nat regex               \<comment> \<open>\<^verbatim>\<open>r{n}\<close>\<close>

definition at_end :: "string \<Rightarrow> nat \<Rightarrow> bool" where
  \<comment> \<open>\<^verbatim>\<open>$\<close> without MULTILINE: the end of the string, or just before a final newline\<close>
  "at_end s i \<longleftrightarrow> i = length s \<or> (Suc i = length s \<and> s ! i = LF)"

definition word_boundary :: "string \<Rightarrow> nat \<Rightarrow> bool" where
  \<comment> \<open>\<^verbatim>\<open>\b\<close>: a word character on exactly one side of the position\<close>
  "word_boundary s i \<longleftrightarrow>
     (0 < i \<and> i \<le> length s \<and> is_word (s ! (i - 1))) \<noteq> (i < length s \<and> is_word (s ! i))"

fun ends :: "regex \<Rightarrow> string \<Rightarrow> nat \<Rightarrow> nat list" where
  "ends (Cls p) s i = (if i < length s \<and> p (s ! i) then [Suc i] else [])"
| "ends Bol s i = (if i = 0 then [i] else [])"
| "ends Eol s i = (if at_end s i then [i] else [])"
| "ends WordB s i = (if word_boundary s i then [i] else [])"
| "ends (Cat a b) s i = concat (map (ends b s) (ends a s i))"
| "ends (Opt a) s i = ends a s i @ [i]"
| "ends (Plus p) s i = rev (map (\<lambda>n. i + n) [1..<Suc (length (takeWhile p (drop i s)))])"
| "ends (Rep n a) s i = ((\<lambda>js. concat (map (ends a s) js)) ^^ n) [i]"

definition allowed_ends :: "regex \<Rightarrow> string \<Rightarrow> nat \<Rightarrow> bool \<Rightarrow> nat \<Rightarrow> nat list" where
  \<comment> \<open>after an empty match, the next match at the same position must not be empty\<close>
  "allowed_ends r s pos adv i = filter (\<lambda>e. \<not> (adv \<and> i = pos \<and> e = i)) (ends r s i)"

definition search_from :: "regex \<Rightarrow> string \<Rightarrow> nat \<Rightarrow> bool \<Rightarrow> (nat \<times> nat) option" where
  \<comment> \<open>the leftmost match at or after \<open>pos\<close>, as the span (start, end)\<close>
  "search_from r s pos adv =
     (case find (\<lambda>i. allowed_ends r s pos adv i \<noteq> []) [pos..<Suc (length s)] of
        None \<Rightarrow> None
      | Some i \<Rightarrow> Some (i, hd (allowed_ends r s pos adv i)))"

definition search :: "regex \<Rightarrow> string \<Rightarrow> (nat \<times> nat) option" where
  "search r s = search_from r s 0 False"

subsection \<open>Substitution\<close>

text \<open>
  \<^verbatim>\<open>pattern.sub(repl, s)\<close> replaces every non-overlapping match, scanning from the left; the
  search resumes where the previous match ended, and after an empty match the next one must
  not be empty at the same position. The replacement is taken literally: the expansions of
  the program's table contain no backslash. The recursion terminates because a match never
  ends before the position the search starts from; this is proved with the facts about the
  matcher.
\<close>

function sub_from :: "regex \<Rightarrow> string \<Rightarrow> string \<Rightarrow> nat \<Rightarrow> bool \<Rightarrow> string" where
  "sub_from r repl s pos adv =
     (case search_from r s pos adv of
        None \<Rightarrow> drop pos s
      | Some (b, e) \<Rightarrow> take (b - pos) (drop pos s) @ repl @ sub_from r repl s e (e = b))"
  by pat_completeness auto

definition sub :: "regex \<Rightarrow> string \<Rightarrow> string \<Rightarrow> string" where
  "sub r repl s = sub_from r repl s 0 False"

section \<open>The patterns of the program\<close>

definition postcode_format_re :: regex where
  \<comment> \<open>\<^verbatim>\<open>^\d{5}(?:[-\s]\d{4})?$\<close>\<close>
  "postcode_format_re =
     Cat Bol (Cat (Rep 5 (Cls is_digit))
       (Cat (Opt (Cat (Cls (\<lambda>c. c = CHR ''-'' \<or> is_space c)) (Rep 4 (Cls is_digit)))) Eol))"

definition street_type_re :: regex where
  \<comment> \<open>\<^verbatim>\<open>\b\S+\.?$\<close>; IGNORECASE changes nothing for these classes\<close>
  "street_type_re =
     Cat WordB (Cat (Plus nonspace) (Cat (Opt (Cls (\<lambda>c. c = CHR ''.''))) Eol))"

section \<open>Field normalizers\<close>

definition truthy :: "string \<Rightarrow> bool" where
  \<comment> \<open>the truth value of a string in a condition\<close>
  "truthy s \<longleftrightarrow> s \<noteq> []"

fun starts_with :: "string \<Rightarrow> string \<Rightarrow> bool" where
  "starts_with [] s = True"
| "starts_with (p # ps) [] = False"
| "starts_with (p # ps) (c # cs) = (p = c \<and> starts_with ps cs)"

text \<open>\<^verbatim>\<open>needle in s\<close> for strings.\<close>

fun str_contains :: "string \<Rightarrow> string \<Rightarrow> bool" where
  "str_contains needle [] = (needle = [])"
| "str_contains needle (c # cs) = (starts_with needle (c # cs) \<or> str_contains needle cs)"

definition rstrip :: "string \<Rightarrow> string \<Rightarrow> string" where
  \<comment> \<open>\<^verbatim>\<open>s.rstrip(chars)\<close>: drop the trailing characters that occur in \<open>chars\<close>\<close>
  "rstrip s chars = rev (dropWhile (\<lambda>c. c \<in> set chars) (rev s))"

text \<open>
  \<^verbatim>\<open>str.capitalize\<close>: the first character in title case (upper case before Python 3.8),
  the others in lower case, with the case mapping of the code points below 256. The title
  case of the sharp s (223) is the two characters \<^verbatim>\<open>Ss\<close>. The title case of the micro
  sign (181) and of the y with diaeresis (255) is a code point above 255 (924 and 376), which
  the character type does not hold: \<open>title_char\<close> leaves these two as they are, and the
  statement about city names leaves out the names with a word that begins with one of them.
\<close>

definition title_char :: "char \<Rightarrow> string" where
  "title_char c =
     (if (97 \<le> codepoint c \<and> codepoint c \<le> 122) \<or> (224 \<le> codepoint c \<and> codepoint c \<le> 246)
         \<or> (248 \<le> codepoint c \<and> codepoint c \<le> 254)
      then [char_of (codepoint c - 32)]
      else if codepoint c = 223 then ''Ss'' else [c])"

definition lower_char :: "char \<Rightarrow> char" where
  "lower_char c =
     (if (65 \<le> codepoint c \<and> codepoint c \<le> 90) \<or> (192 \<le> codepoint c \<and> codepoint c \<le> 214)
         \<or> (216 \<le> codepoint c \<and> codepoint c \<le> 222)
      then char_of (codepoint c + 32) else c)"

definition capitalize :: "string \<Rightarrow> string" where
  "capitalize w = (case w of [] \<Rightarrow> [] | c # cs \<Rightarrow> title_char c @ map lower_char cs)"

fun join :: "string \<Rightarrow> string list \<Rightarrow> string" where
  "join sep [] = []"
| "join sep [w] = w"
| "join sep (w # ws) = w @ sep @ join sep ws"

definition capwords :: "string \<Rightarrow> string" where
  \<comment> \<open>\<^verbatim>\<open>string.capwords(s)\<close>: split on whitespace, capitalize each word, join with one space\<close>
  "capwords s = join '' '' (map capitalize (str_split s))"

definition update_city_name :: "string \<Rightarrow> string" where
  "update_city_name name =
     (let name' = (if truthy '', WA'' \<or> str_contains '',WA'' name
                   then rstrip name '', WA'' else name)
      in capwords name')"

definition mapping :: "string \<rightharpoonup> string" where
  "mapping = map_of
     [(''St'', ''Street''),
      (''St.'', ''Street''),
      (''Rd.'', ''Road''),
      (''Ave'', ''Avenue''),
      (''NE'', ''Northeast''),
      (''NW'', ''Northwest''),
      (''SE'', ''Southeast''),
      (''SW'', ''Southwest''),
      (''WY'', ''Way''),
      (''Ln'', ''Lane''),
      (''ln'', ''Lane'')]"

text \<open>
  \<open>update_street_name\<close>: \<open>street_type\<close> is \<^verbatim>\<open>m.group()\<close>, the matched text; the test
  \<^verbatim>\<open>street_type in list(mapping.keys())\<close> is the lookup giving \<open>Some\<close>. The parameter that the
  program calls \<^verbatim>\<open>mapping\<close>, like the table, is \<open>mp\<close> here.
\<close>

definition update_street_name :: "string \<Rightarrow> (string \<rightharpoonup> string) \<Rightarrow> string" where
  "update_street_name name mp =
     (case search street_type_re name of
        None \<Rightarrow> name
      | Some (b, e) \<Rightarrow>
          (let street_type = take (e - b) (drop b name) in
           case mp street_type of
             Some better_street_type \<Rightarrow> sub street_type_re better_street_type name
           | None \<Rightarrow> name))"

text \<open>
  \<open>update_postcode\<close>: a match object is always true; \<^verbatim>\<open>postcode[:5]\<close> is \<open>take 5\<close>. Every call
  in the program leaves \<open>invalid\<close> at its default, \<open>True\<close>.
\<close>

definition update_postcode :: "string \<Rightarrow> bool \<Rightarrow> bool \<times> string" where
  "update_postcode postcode invalid =
     (case search postcode_format_re postcode of
        Some m \<Rightarrow> (False, take 5 postcode)
      | None \<Rightarrow> (invalid, postcode))"

section \<open>Elements and records\<close>

text \<open>
  An element of the parsed document, as \<^verbatim>\<open>xml.etree\<close> gives it: its tag, its attribute
  dictionary and its children. \<open>iter name\<close> is \<^verbatim>\<open>element.iter(name)\<close>: the element itself, if it
  has that tag, and all the elements below it with that tag, in document order.
\<close>

datatype element = Element (tag: string) (attrib: "string \<rightharpoonup> string") (children: "element list")

fun iter :: "string \<Rightarrow> element \<Rightarrow> element list" where
  "iter name (Element t a cs) =
     (if t = name then [Element t a cs] else []) @ concat (map (iter name) cs)"

text \<open>
  The errors that abort a run: a missing dictionary key (an absent attribute), and the
  exception raised when the validator rejects a shaped element.
\<close>

datatype error = KeyError string | ValidationError

text \<open>
  The dictionaries the extractor builds. A tag record has the keys \<^verbatim>\<open>id\<close>, \<^verbatim>\<open>key\<close>, \<^verbatim>\<open>value\<close>
  and \<^verbatim>\<open>type\<close>, a way-node record the keys \<^verbatim>\<open>id\<close>, \<^verbatim>\<open>node_id\<close> and \<^verbatim>\<open>position\<close>; the result
  of an extraction is the dictionary with the key \<^verbatim>\<open>node\<close> or \<^verbatim>\<open>way\<close> and the lists that go with
  it.
\<close>

record tag_record =
  tag_id :: string
  tag_key :: string
  tag_value :: string
  tag_type :: string

record way_node =
  wn_id :: string
  node_id :: string
  position :: nat

datatype extracted =
    NodeDict (node: "string \<rightharpoonup> string") (node_tags: "tag_record list")
  | WayDict (way: "string \<rightharpoonup> string") (way_nodes: "way_node list") (way_tags: "tag_record list")

section \<open>Record extractor\<close>

definition NODE_FIELDS :: "string list" where
  "NODE_FIELDS = [''id'', ''lat'', ''lon'', ''user'', ''uid'', ''version'', ''changeset'', ''timestamp'']"

definition WAY_FIELDS :: "string list" where
  "WAY_FIELDS = [''id'', ''user'', ''uid'', ''version'', ''changeset'', ''timestamp'']"

text \<open>\<^verbatim>\<open>PROBLEMCHARS = [=\+/&<>;\'"\?%#$@\,\. \t\r\n]\<close>\<close>

definition problem_char :: "char \<Rightarrow> bool" where
  "problem_char c \<longleftrightarrow> c \<in> set (''=+/&<>;'' @ [CHR 0x27, CHR 0x22] @ ''?%#$@,. '' @ [CHR 0x09, CHR 0x0D, CHR 0x0A])"

definition PROBLEMCHARS :: regex where
  "PROBLEMCHARS = Cls problem_char"

text \<open>The loop \<^verbatim>\<open>for key in fields: attribs[key] = element.attrib[key]\<close>.\<close>

fun copy_attribs :: "(string \<rightharpoonup> string) \<Rightarrow> string list \<Rightarrow> (string \<rightharpoonup> string) \<Rightarrow> error + (string \<rightharpoonup> string)" where
  "copy_attribs a [] attribs = Inr attribs"
| "copy_attribs a (key # keys) attribs =
     (case a key of
        None \<Rightarrow> Inl (KeyError key)
      | Some v \<Rightarrow> copy_attribs a keys (attribs(key \<mapsto> v)))"

text \<open>\<^verbatim>\<open>k.split(":", 1)\<close> for a key that contains a colon: the parts before and after the first.\<close>

definition split_colon :: "string \<Rightarrow> string \<times> string" where
  "split_colon k = (takeWhile (\<lambda>c. c \<noteq> CHR '':'') k, tl (dropWhile (\<lambda>c. c \<noteq> CHR '':'') k))"

text \<open>
  The body of the loop over the tag elements, which \<open>extract_node\<close> and \<open>extract_way\<close> share
  line by line: \<open>None\<close> is \<^verbatim>\<open>continue\<close>, \<open>Some r\<close> is the record appended. The condition on the
  street key is \<^verbatim>\<open>key == "street" or "street:name"\<close>, with the truth value of the literal.
\<close>

definition shape_tag :: "regex \<Rightarrow> string \<Rightarrow> (string \<rightharpoonup> string) \<Rightarrow> element \<Rightarrow> error + tag_record option" where
  "shape_tag problem_chars default_tag_type attribs t =
     (case attribs ''id'' of None \<Rightarrow> Inl (KeyError ''id'') | Some i \<Rightarrow>
      case attrib t ''v'' of None \<Rightarrow> Inl (KeyError ''v'') | Some v \<Rightarrow>
      case attrib t ''k'' of None \<Rightarrow> Inl (KeyError ''k'') | Some k \<Rightarrow>
        if search problem_chars k \<noteq> None then Inr None
        else
          let key = (if CHR '':'' \<in> set k then snd (split_colon k) else k);
              ty = (if CHR '':'' \<in> set k then fst (split_colon k) else default_tag_type);
              v1 = (if key = ''city'' then update_city_name v else v);
              v2 = (if key = ''street'' \<or> truthy ''street:name''
                    then update_street_name v1 mapping else v1);
              v3 = (if key = ''postcode''
                    then (case update_postcode v2 True of
                            (invalid, p) \<Rightarrow> if invalid then ''fixme:'' @ p else p)
                    else v2)
          in Inr (Some \<lparr>tag_id = i, tag_key = key, tag_value = v3, tag_type = ty\<rparr>))"

fun tags_loop :: "(element \<Rightarrow> error + tag_record option) \<Rightarrow> element list \<Rightarrow> tag_record list \<Rightarrow> error + tag_record list" where
  "tags_loop body [] tags = Inr tags"
| "tags_loop body (t # ts) tags =
     (case body t of
        Inl e \<Rightarrow> Inl e
      | Inr None \<Rightarrow> tags_loop body ts tags
      | Inr (Some r) \<Rightarrow> tags_loop body ts (tags @ [r]))"

text \<open>The loop \<^verbatim>\<open>for counter, nd in enumerate(element.iter("nd"))\<close>.\<close>

fun nodes_loop :: "(string \<rightharpoonup> string) \<Rightarrow> (nat \<times> element) list \<Rightarrow> way_node list \<Rightarrow> error + way_node list" where
  "nodes_loop attribs [] nodes = Inr nodes"
| "nodes_loop attribs ((counter, nd) # rest) nodes =
     (case attribs ''id'' of None \<Rightarrow> Inl (KeyError ''id'') | Some i \<Rightarrow>
      case attrib nd ''ref'' of None \<Rightarrow> Inl (KeyError ''ref'') | Some ref \<Rightarrow>
        nodes_loop attribs rest (nodes @ [\<lparr>wn_id = i, node_id = ref, position = counter\<rparr>]))"

definition extract_node :: "element \<Rightarrow> string list \<Rightarrow> regex \<Rightarrow> string \<Rightarrow> error + extracted" where
  "extract_node element node_attr_fields problem_chars default_tag_type =
     (case copy_attribs (attrib element) node_attr_fields Map.empty of
        Inl e \<Rightarrow> Inl e
      | Inr attribs \<Rightarrow>
          (case tags_loop (shape_tag problem_chars default_tag_type attribs) (iter ''tag'' element) [] of
             Inl e \<Rightarrow> Inl e
           | Inr tags \<Rightarrow> Inr (NodeDict attribs tags)))"

text \<open>\<open>extract_way\<close> does not use its parameter \<open>problem_chars\<close>: it calls the global pattern.\<close>

definition extract_way :: "element \<Rightarrow> string list \<Rightarrow> regex \<Rightarrow> string \<Rightarrow> error + extracted" where
  "extract_way element way_attr_fields problem_chars default_tag_type =
     (case copy_attribs (attrib element) way_attr_fields Map.empty of
        Inl e \<Rightarrow> Inl e
      | Inr attribs \<Rightarrow>
          (case tags_loop (shape_tag PROBLEMCHARS default_tag_type attribs) (iter ''tag'' element) [] of
             Inl e \<Rightarrow> Inl e
           | Inr tags \<Rightarrow>
               (case nodes_loop attribs (enumerate 0 (iter ''nd'' element)) [] of
                  Inl e \<Rightarrow> Inl e
                | Inr nodes \<Rightarrow> Inr (WayDict attribs nodes tags))))"

definition extract_element :: "element \<Rightarrow> string \<Rightarrow> error + extracted option" where
  "extract_element element default_tag_type =
     (if tag element = ''node''
      then map_sum id Some (extract_node element NODE_FIELDS PROBLEMCHARS default_tag_type)
      else if tag element = ''way''
      then map_sum id Some (extract_way element WAY_FIELDS PROBLEMCHARS default_tag_type)
      else Inr None)"

section \<open>Pipeline driver\<close>

text \<open>
  The streaming parser is outside the program: \<open>get_element\<close> is given the elements in the
  order in which the parser completes them, each as it stands when it is handed over, and
  yields those whose tag is requested. After every element it has yielded the generator
  empties the root of the document (\<^verbatim>\<open>root.clear()\<close>); this changes what the root itself
  holds and nothing of the elements yielded before or after it, so only a root whose own tag
  is requested is handed over in another state than the document gives it, the emptied one.
  A table is the list of its lines, the header line or a row (the dictionary handed to the
  writer). The validator is a parameter.
\<close>

definition get_element :: "element list \<Rightarrow> string list \<Rightarrow> element list" where
  "get_element ended tags = filter (\<lambda>elem. tag elem \<in> set tags) ended"

definition validate_element :: "extracted \<Rightarrow> (extracted \<Rightarrow> bool) \<Rightarrow> error + unit" where
  "validate_element el validator = (if validator el then Inr () else Inl ValidationError)"

record tables =
  nodes_file :: "(string list + (string \<rightharpoonup> string)) list"
  nodes_tags_file :: "(string list + tag_record) list"
  ways_file :: "(string list + (string \<rightharpoonup> string)) list"
  way_nodes_file :: "(string list + way_node) list"
  way_tags_file :: "(string list + tag_record) list"

definition NODE_TAGS_FIELDS :: "string list" where
  "NODE_TAGS_FIELDS = [''id'', ''key'', ''value'', ''type'']"

definition WAY_TAGS_FIELDS :: "string list" where
  "WAY_TAGS_FIELDS = [''id'', ''key'', ''value'', ''type'']"

definition WAY_NODES_FIELDS :: "string list" where
  "WAY_NODES_FIELDS = [''id'', ''node_id'', ''position'']"

definition opened :: tables where
  \<comment> \<open>the five files, truncated, after \<^verbatim>\<open>writeheader\<close>\<close>
  "opened = \<lparr>nodes_file = [Inl NODE_FIELDS], nodes_tags_file = [Inl NODE_TAGS_FIELDS],
             ways_file = [Inl WAY_FIELDS], way_nodes_file = [Inl WAY_NODES_FIELDS],
             way_tags_file = [Inl WAY_TAGS_FIELDS]\<rparr>"

definition write_element :: "tables \<Rightarrow> element \<Rightarrow> extracted \<Rightarrow> error + tables" where
  "write_element st element el =
     (if tag element = ''node'' then
        (case el of
           NodeDict a ts \<Rightarrow>
             Inr (st\<lparr>nodes_file := nodes_file st @ [Inr a],
                     nodes_tags_file := nodes_tags_file st @ map Inr ts\<rparr>)
         | WayDict a ns ts \<Rightarrow> Inl (KeyError ''node''))
      else if tag element = ''way'' then
        (case el of
           WayDict a ns ts \<Rightarrow>
             Inr (st\<lparr>ways_file := ways_file st @ [Inr a],
                     way_nodes_file := way_nodes_file st @ map Inr ns,
                     way_tags_file := way_tags_file st @ map Inr ts\<rparr>)
         | NodeDict a ts \<Rightarrow> Inl (KeyError ''way''))
      else Inr st)"

text \<open>
  The loop of \<open>process_map\<close>. An error ends the run; the files keep the rows written so far.
\<close>

fun process_elements ::
  "bool \<Rightarrow> (extracted \<Rightarrow> bool) \<Rightarrow> element list \<Rightarrow> tables \<Rightarrow> tables \<times> error option" where
  "process_elements validate validator [] st = (st, None)"
| "process_elements validate validator (element # rest) st =
     (case extract_element element ''regular'' of
        Inl e \<Rightarrow> (st, Some e)
      | Inr None \<Rightarrow> process_elements validate validator rest st
      | Inr (Some el) \<Rightarrow>
          (case (if validate then validate_element el validator else Inr ()) of
             Inl e \<Rightarrow> (st, Some e)
           | Inr u \<Rightarrow>
               (case write_element st element el of
                  Inl e \<Rightarrow> (st, Some e)
                | Inr st' \<Rightarrow> process_elements validate validator rest st')))"

definition process_map :: "element list \<Rightarrow> bool \<Rightarrow> (extracted \<Rightarrow> bool) \<Rightarrow> tables \<times> error option" where
  "process_map ended validate validator =
     process_elements validate validator (get_element ended [''node'', ''way'']) opened"

section \<open>Notions used in the statements\<close>

subsection \<open>Postal codes: the shapes a code can have\<close>

definition chomp :: "string \<Rightarrow> string" where
  \<comment> \<open>the string without one final newline, if it has one\<close>
  "chomp s = (if s \<noteq> [] \<and> last s = LF then butlast s else s)"

text \<open>
  The shapes a postal code can have, read on the string without one final newline
  (\<open>chomp\<close>): \<^verbatim>\<open>$\<close> also matches just before it.
\<close>

definition is_zip5 :: "string \<Rightarrow> bool" where
  "is_zip5 s \<longleftrightarrow> length s = 5 \<and> list_all is_digit s"

definition is_zip9 :: "(char \<Rightarrow> bool) \<Rightarrow> string \<Rightarrow> bool" where
  "is_zip9 sep s \<longleftrightarrow>
     length s = 10 \<and> list_all is_digit (take 5 s) \<and> sep (s ! 5) \<and> list_all is_digit (drop 6 s)"

definition accepted_postcode :: "string \<Rightarrow> bool" where
  "accepted_postcode s \<longleftrightarrow>
     is_zip5 (chomp s) \<or> is_zip9 (\<lambda>c. c = CHR ''-'' \<or> is_space c) (chomp s)"

definition postcode_matches :: "(char \<Rightarrow> bool) \<Rightarrow> string \<Rightarrow> bool" where
  "postcode_matches sep s \<longleftrightarrow> 5 \<le> length s \<and> list_all is_digit (take 5 s) \<and>
   ((5 < length s \<and> sep (s ! 5) \<and> 10 \<le> length s \<and> list_all is_digit (take 4 (drop 6 s)) \<and> at_end s 10)
    \<or> at_end s 5)"

definition spec_valid_postcode :: "string \<Rightarrow> bool" where
  \<comment> \<open>the specification's words: five digits, or five digits, a hyphen or a space, four digits\<close>
  "spec_valid_postcode s \<longleftrightarrow> is_zip5 s \<or> is_zip9 (\<lambda>c. c = CHR ''-'' \<or> c = CHR '' '') s"

subsection \<open>Street names: where the pattern matches\<close>

text \<open>
  A match of \<^verbatim>\<open>\b\S+\.?$\<close> starts at a word boundary inside the last run of non-whitespace
  characters and ends where that run ends: at the end of the string, or before its final
  newline.
\<close>

definition street_match :: "string \<Rightarrow> nat \<Rightarrow> bool" where
  "street_match s i \<longleftrightarrow>
     word_boundary s i \<and> i < length (chomp s) \<and> list_all nonspace (drop i (chomp s))"

definition last_token :: "string \<Rightarrow> string" where
  \<comment> \<open>the run of non-whitespace characters that ends the string\<close>
  "last_token s = rev (takeWhile nonspace (rev s))"

definition street_type_of :: "string \<Rightarrow> string" where
  \<comment> \<open>the text the pattern matches: the last token of the name (one final newline set
      aside) from its first word character on; empty when the pattern does not match\<close>
  "street_type_of name = dropWhile (\<lambda>c. \<not> is_word c) (last_token (chomp name))"

definition boundary_in :: "string \<Rightarrow> nat \<Rightarrow> bool" where
  "boundary_in tok k \<longleftrightarrow>
     (if k = 0 then is_word (tok ! 0) else is_word (tok ! (k - 1)) \<noteq> is_word (tok ! k))"

definition spec_final_token :: "string \<Rightarrow> string" where
  \<comment> \<open>the specification's words: the final whitespace-delimited token\<close>
  "spec_final_token name = (if str_split name = [] then [] else last (str_split name))"

definition expansions :: "string list" where
  \<comment> \<open>the values of \<open>mapping\<close>\<close>
  "expansions = [''Street'', ''Road'', ''Avenue'', ''Northeast'', ''Northwest'', ''Southeast'',
            ''Southwest'', ''Way'', ''Lane'']"

subsection \<open>City names: stripping and title-casing\<close>









subsection \<open>Extraction: what the loops produce\<close>

text \<open>
  What the two loops leave behind when no attribute is missing: the records of the tag
  elements that are not dropped, in order, and one way-node record for each nd element.
\<close>

definition emitted :: "(element \<Rightarrow> error + tag_record option) \<Rightarrow> element list \<Rightarrow> tag_record list" where
  "emitted body ts = concat (map (\<lambda>t. case body t of Inr (Some r) \<Rightarrow> [r] | _ \<Rightarrow> []) ts)"

definition way_node_rows :: "element \<Rightarrow> way_node list" where
  "way_node_rows e =
     map (\<lambda>x. \<lparr>wn_id = the (attrib e ''id''), node_id = the (attrib (snd x) ''ref''),
                position = fst x\<rparr>)
         (enumerate 0 (iter ''nd'' e))"


text \<open>The attributes an extraction reads are all there.\<close>

definition tags_complete :: "element \<Rightarrow> bool" where
  "tags_complete e \<longleftrightarrow>
     list_all (\<lambda>t. attrib t ''v'' \<noteq> None \<and> attrib t ''k'' \<noteq> None) (iter ''tag'' e)"

definition has_attributes :: "element \<Rightarrow> bool" where
  "has_attributes e \<longleftrightarrow>
     (if tag e = ''node'' then
        list_all (\<lambda>f. attrib e f \<noteq> None) NODE_FIELDS \<and> tags_complete e
      else
        list_all (\<lambda>f. attrib e f \<noteq> None) WAY_FIELDS \<and> tags_complete e
        \<and> list_all (\<lambda>n. attrib n ''ref'' \<noteq> None) (iter ''nd'' e))"

subsection \<open>Example elements\<close>

text \<open>A tag element and an nd element.\<close>

definition the_tag :: "string \<Rightarrow> string \<Rightarrow> element" where
  "the_tag k v = Element ''tag'' [''k'' \<mapsto> k, ''v'' \<mapsto> v] []"

definition the_nd :: "string \<Rightarrow> element" where
  "the_nd ref = Element ''nd'' [''ref'' \<mapsto> ref] []"

text \<open>
  The node of the specification's end-to-end scenario, with one tag child:
  \<^verbatim>\<open><node id="1" lat="47.1" lon="-122.3" user="u" uid="2" version="1" changeset="3" timestamp="t">\<close>.
\<close>

definition node_with_tag :: "string \<Rightarrow> string \<Rightarrow> element" where
  "node_with_tag k v = Element ''node''
     [''id'' \<mapsto> ''1'', ''lat'' \<mapsto> ''47.1'', ''lon'' \<mapsto> ''-122.3'', ''user'' \<mapsto> ''u'', ''uid'' \<mapsto> ''2'',
      ''version'' \<mapsto> ''1'', ''changeset'' \<mapsto> ''3'', ''timestamp'' \<mapsto> ''t'']
     [the_tag k v]"

definition node_without_uid :: element where
  "node_without_uid = Element ''node''
     [''id'' \<mapsto> ''1'', ''lat'' \<mapsto> ''47.1'', ''lon'' \<mapsto> ''-122.3'', ''user'' \<mapsto> ''u'',
      ''version'' \<mapsto> ''1'', ''changeset'' \<mapsto> ''3'', ''timestamp'' \<mapsto> ''t'']
     []"

text \<open>Example ways, with the six attributes of a way and the given children.\<close>

definition way_with :: "element list \<Rightarrow> element" where
  "way_with cs = Element ''way''
     [''id'' \<mapsto> ''9'', ''user'' \<mapsto> ''u'', ''uid'' \<mapsto> ''2'', ''version'' \<mapsto> ''1'',
      ''changeset'' \<mapsto> ''3'', ''timestamp'' \<mapsto> ''t'']
     cs"

definition nested_way :: element where
  "nested_way = way_with [Element ''tag'' [''k'' \<mapsto> ''a'', ''v'' \<mapsto> ''b''] [the_nd ''7''], the_nd ''8'']"

section \<open>Facts about the matcher\<close>

lemma in_ends_Plus:
  "e \<in> set (ends (Plus p) s i) \<longleftrightarrow> i < e \<and> e \<le> i + length (takeWhile p (drop i s))"
proof -
  have "e \<in> set (ends (Plus p) s i) \<longleftrightarrow> e \<in> (\<lambda>n. i + n) ` {1..<Suc (length (takeWhile p (drop i s)))}"
    by (simp del: upt_Suc)
  also have "\<dots> \<longleftrightarrow> i < e \<and> e \<le> i + length (takeWhile p (drop i s))"
    by (simp add: Suc_le_eq less_Suc_eq_le add.commute)
  finally show ?thesis .
qed

lemma iter_ends_bounds:
  assumes step: "\<And>j e. j \<le> length s \<Longrightarrow> e \<in> set (f j) \<Longrightarrow> j \<le> e \<and> e \<le> length (s::string)"
  shows "\<forall>j\<in>set js. i \<le> j \<and> j \<le> length s \<Longrightarrow>
          e \<in> set (((\<lambda>js. concat (map f js)) ^^ n) js) \<Longrightarrow> i \<le> e \<and> e \<le> length s"
proof (induction n arbitrary: e)
  case 0
  then show ?case by simp
next
  case (Suc n)
  from Suc.prems(2) obtain e' where j: "e' \<in> set (((\<lambda>js. concat (map f js)) ^^ n) js)"
    and e: "e \<in> set (f e')"
    by auto
  from Suc.IH[OF Suc.prems(1) j] have "i \<le> e'" "e' \<le> length s" by auto
  with step[OF _ e] show ?case by auto
qed

lemma ends_bounds: "i \<le> length s \<Longrightarrow> e \<in> set (ends r s i) \<Longrightarrow> i \<le> e \<and> e \<le> length s"
proof (induction r arbitrary: i e)
  case (Cls p)
  then show ?case by (simp split: if_splits)
next
  case Bol
  then show ?case by (simp split: if_splits)
next
  case Eol
  then show ?case by (simp split: if_splits)
next
  case WordB
  then show ?case by (simp split: if_splits)
next
  case (Cat a b)
  from Cat.prems(2) obtain j where j: "j \<in> set (ends a s i)" and e: "e \<in> set (ends b s j)"
    by auto
  from Cat.IH(1)[OF Cat.prems(1) j] have "i \<le> j" "j \<le> length s" by auto
  with Cat.IH(2)[OF _ e] show ?case by auto
next
  case (Opt a)
  from Opt.prems(2) have "e \<in> set (ends a s i) \<or> e = i" by (simp add: disj_commute)
  then show ?case
  proof
    assume "e \<in> set (ends a s i)"
    from Opt.IH[OF Opt.prems(1) this] show ?thesis .
  next
    assume "e = i"
    with Opt.prems(1) show ?thesis by simp
  qed
next
  case (Plus p)
  have "length (takeWhile p (drop i s)) \<le> length (drop i s)"
    by (rule length_takeWhile_le)
  then have k: "length (takeWhile p (drop i s)) \<le> length s - i"
    by simp
  from Plus.prems(2) have "i < e" "e \<le> i + length (takeWhile p (drop i s))"
    unfolding in_ends_Plus by simp_all
  with k Plus.prems(1) show ?case by simp
next
  case (Rep n a)
  from Rep.prems(2) have "e \<in> set (((\<lambda>js. concat (map (ends a s) js)) ^^ n) [i])" by simp
  from iter_ends_bounds[of s "ends a s" "[i]" i e n, OF Rep.IH _ this] Rep.prems(1)
  show ?case by simp
qed

lemma list_all_take_Suc:
  "n < length xs \<Longrightarrow> list_all p (take (Suc n) xs) \<longleftrightarrow> list_all p (take n xs) \<and> p (xs ! n)"
  by (simp add: take_Suc_conv_app_nth)

lemma ends_Rep_Cls:
  "i \<le> length s \<Longrightarrow> ends (Rep n (Cls p)) s i =
     (if i + n \<le> length s \<and> list_all p (take n (drop i s)) then [i + n] else [])"
proof (induction n)
  case 0
  then show ?case by simp
next
  case (Suc n)
  have step: "ends (Rep (Suc n) (Cls p)) s i = concat (map (ends (Cls p) s) (ends (Rep n (Cls p)) s i))"
    by simp
  show ?case
  proof (cases "i + Suc n \<le> length s")
    case True
    then have n: "n < length (drop i s)" by simp
    from True have "(drop i s) ! n = s ! (i + n)" by simp
    with True list_all_take_Suc[OF n, of p] show ?thesis
      unfolding step Suc.IH[OF Suc.prems] by simp
  next
    case False
    then show ?thesis unfolding step Suc.IH[OF Suc.prems] by simp
  qed
qed

lemma allowed_ends_no_adv [simp]: "allowed_ends r s pos False i = ends r s i"
  by (simp add: allowed_ends_def)

declare ends.simps [simp del]

lemma ends_Cat_Bol: "ends (Cat Bol r) s i = (if i = 0 then ends r s 0 else [])"
  by (simp add: ends.simps)

lemma find_upt_first:
  assumes "\<And>i. 0 < i \<Longrightarrow> \<not> P i"
  shows "find P [0..<Suc n] = (if P 0 then Some 0 else None)"
proof -
  have "find P [Suc 0..<Suc n] = None"
    using assms by (simp add: find_None_iff del: upt_Suc)
  moreover have "[0..<Suc n] = 0 # [Suc 0..<Suc n]"
    by (simp add: upt_conv_Cons del: upt_Suc)
  ultimately show ?thesis by simp
qed

lemma search_Bol:
  "search (Cat Bol r) s = (if ends r s 0 = [] then None else Some (0, hd (ends r s 0)))"
proof -
  have "find (\<lambda>i. ends (Cat Bol r) s i \<noteq> []) [0..<Suc (length s)]
          = (if ends (Cat Bol r) s 0 \<noteq> [] then Some 0 else None)"
    by (rule find_upt_first) (simp add: ends_Cat_Bol)
  then show ?thesis
    unfolding search_def search_from_def allowed_ends_no_adv by (simp add: ends_Cat_Bol)
qed

lemma find_Some_D: "find P xs = Some x \<Longrightarrow> P x \<and> x \<in> set xs"
  by (induction xs) (auto split: if_splits)

lemma search_from_bounds:
  assumes "search_from r s pos adv = Some (b, e)"
  shows "pos \<le> b \<and> b \<le> e \<and> e \<le> length s \<and> (adv \<longrightarrow> pos < e)"
proof -
  from assms obtain i where f: "find (\<lambda>i. allowed_ends r s pos adv i \<noteq> []) [pos..<Suc (length s)] = Some i"
    and be: "b = i" "e = hd (allowed_ends r s pos adv i)"
    by (auto simp: search_from_def split: option.splits)
  from find_Some_D[OF f] have ne: "allowed_ends r s pos adv i \<noteq> []" and i: "pos \<le> i" "i \<le> length s"
    by auto
  from ne have "e \<in> set (allowed_ends r s pos adv i)" unfolding be by simp
  then have e: "e \<in> set (ends r s i)" and a: "\<not> (adv \<and> i = pos \<and> e = i)"
    by (auto simp: allowed_ends_def)
  from ends_bounds[OF i(2) e] have ie: "i \<le> e" "e \<le> length s" by auto
  have "adv \<longrightarrow> pos < e"
  proof
    assume adv
    with a have "i \<noteq> pos \<or> e \<noteq> i" by blast
    with ie(1) i(1) show "pos < e" by arith
  qed
  with ie i(1) show ?thesis unfolding be(1) by blast
qed

termination sub_from
proof (relation "measures [\<lambda>(r, repl, s, pos, adv). Suc (length s) - pos,
                           \<lambda>(r, repl, s, pos, adv). if adv then 0 else 1]")
  show "wf (measures [\<lambda>(r, repl, s, pos, adv). Suc (length s) - pos,
                      \<lambda>(r, repl, s, pos, adv). if adv then 0 else (1::nat)])"
    by simp
next
  fix r :: regex and repl s :: string and pos :: nat and adv :: bool and x2 :: "nat \<times> nat" and b e :: nat
  assume "search_from r s pos adv = Some x2" and "(b, e) = x2"
  then have "search_from r s pos adv = Some (b, e)" by simp
  from search_from_bounds[OF this]
  have "pos \<le> b" "b \<le> e" "e \<le> length s" "adv \<longrightarrow> pos < e" by auto
  then show "((r, repl, s, e, e = b), (r, repl, s, pos, adv))
       \<in> measures [\<lambda>(r, repl, s, pos, adv). Suc (length s) - pos,
                    \<lambda>(r, repl, s, pos, adv). if adv then 0 else 1]"
    by auto
qed

declare sub_from.simps [simp del]

section \<open>Postal codes: proofs\<close>

lemma not_digit_LF: "\<not> is_digit LF"
  by (simp add: is_digit_def LF_def codepoint_def)

lemma ends_Cat_Nil: "ends a s i = [] \<Longrightarrow> ends (Cat a b) s i = []"
  by (simp add: ends.simps(5))

lemma ends_Cat_single: "ends a s i = [j] \<Longrightarrow> ends (Cat a b) s i = ends b s j"
  by (simp add: ends.simps(5))

lemma ends_sep_zip4:
  "ends (Cat (Cls sep) (Rep 4 (Cls is_digit))) s 5 =
     (if 5 < length s \<and> sep (s ! 5) \<and> 10 \<le> length s \<and> list_all is_digit (take 4 (drop 6 s))
      then [10] else [])"
proof (cases "5 < length s \<and> sep (s ! 5)")
  case True
  then have "ends (Cls sep) s 5 = [6]" by (simp add: ends.simps(1))
  then have "ends (Cat (Cls sep) (Rep 4 (Cls is_digit))) s 5 = ends (Rep 4 (Cls is_digit)) s 6"
    by (rule ends_Cat_single)
  also from True have "\<dots> = (if 10 \<le> length s \<and> list_all is_digit (take 4 (drop 6 s)) then [10] else [])"
    by (simp add: ends_Rep_Cls)
  finally show ?thesis using True by simp
next
  case False
  then have "ends (Cls sep) s 5 = []" by (simp add: ends.simps(1))
  then have "ends (Cat (Cls sep) (Rep 4 (Cls is_digit))) s 5 = []"
    by (rule ends_Cat_Nil)
  with False show ?thesis by auto
qed

lemma ends_Opt_Eol:
  "ends (Cat (Opt a) Eol) s i \<noteq> [] \<longleftrightarrow> (\<exists>e\<in>set (ends a s i). at_end s e) \<or> at_end s i"
  by (auto simp: ends.simps(3,5,6))

lemma ends_postcode:
  "ends (Cat (Rep 5 (Cls is_digit))
       (Cat (Opt (Cat (Cls sep) (Rep 4 (Cls is_digit)))) Eol)) s 0 \<noteq> [] \<longleftrightarrow>
   5 \<le> length s \<and> list_all is_digit (take 5 s) \<and>
   ((5 < length s \<and> sep (s ! 5) \<and> 10 \<le> length s \<and> list_all is_digit (take 4 (drop 6 s)) \<and> at_end s 10)
    \<or> at_end s 5)"
proof (cases "5 \<le> length s \<and> list_all is_digit (take 5 s)")
  case True
  then have "ends (Rep 5 (Cls is_digit)) s 0 = [5]"
    by (simp add: ends_Rep_Cls)
  then have "ends (Cat (Rep 5 (Cls is_digit))
       (Cat (Opt (Cat (Cls sep) (Rep 4 (Cls is_digit)))) Eol)) s 0
     = ends (Cat (Opt (Cat (Cls sep) (Rep 4 (Cls is_digit)))) Eol) s 5"
    by (rule ends_Cat_single)
  with True show ?thesis
    by (simp add: ends_Opt_Eol ends_sep_zip4)
next
  case False
  then have "ends (Rep 5 (Cls is_digit)) s 0 = []"
    by (simp add: ends_Rep_Cls)
  then have "ends (Cat (Rep 5 (Cls is_digit))
       (Cat (Opt (Cat (Cls sep) (Rep 4 (Cls is_digit)))) Eol)) s 0 = []"
    by (rule ends_Cat_Nil)
  with False show ?thesis by auto
qed

lemma at_end_snoc_LF: "at_end (t @ [LF]) i \<longleftrightarrow> i = length t \<or> i = Suc (length t)"
  by (auto simp: at_end_def nth_append)

lemma at_end_no_LF: "\<not> (s \<noteq> [] \<and> last s = LF) \<Longrightarrow> at_end s i \<longleftrightarrow> i = length s"
proof -
  assume n: "\<not> (s \<noteq> [] \<and> last s = LF)"
  have "\<not> (Suc i = length s \<and> s ! i = LF)"
  proof
    assume a: "Suc i = length s \<and> s ! i = LF"
    then have "s \<noteq> []" by auto
    moreover from a have "length s - 1 = i" by arith
    ultimately have "last s = LF" using a by (simp add: last_conv_nth)
    with \<open>s \<noteq> []\<close> show False using n by simp
  qed
  then show ?thesis by (auto simp: at_end_def)
qed

lemma postcode_matches_no_LF:
  assumes "\<not> (s \<noteq> [] \<and> last s = LF)"
  shows "postcode_matches sep s \<longleftrightarrow> is_zip5 s \<or> is_zip9 sep s"
  unfolding postcode_matches_def is_zip5_def is_zip9_def at_end_no_LF[OF assms]
  by auto

lemma postcode_matches_snoc_LF:
  "postcode_matches sep (t @ [LF]) \<longleftrightarrow> is_zip5 t \<or> is_zip9 sep t"
proof -
  have a: "length t = 4 \<Longrightarrow> \<not> list_all is_digit (take 5 (t @ [LF]))"
    by (simp add: not_digit_LF)
  have b: "length t = 9 \<Longrightarrow> \<not> list_all is_digit (take 4 (drop 6 (t @ [LF])))"
    by (simp add: not_digit_LF)
  show ?thesis
    unfolding postcode_matches_def is_zip5_def is_zip9_def at_end_snoc_LF
    using a b by (auto simp: nth_append)
qed

lemma postcode_matches_accepted:
  "postcode_matches (\<lambda>c. c = CHR ''-'' \<or> is_space c) s \<longleftrightarrow> accepted_postcode s"
proof (cases "s \<noteq> [] \<and> last s = LF")
  case True
  then have "s = butlast s @ [LF]" by (metis append_butlast_last_id)
  then have "postcode_matches (\<lambda>c. c = CHR ''-'' \<or> is_space c) s
       = postcode_matches (\<lambda>c. c = CHR ''-'' \<or> is_space c) (butlast s @ [LF])" by simp
  moreover from True have "chomp s = butlast s" by (simp add: chomp_def)
  ultimately show ?thesis
    unfolding postcode_matches_snoc_LF accepted_postcode_def by simp
next
  case False
  then have "chomp s = s" by (auto simp: chomp_def)
  then show ?thesis
    unfolding accepted_postcode_def using postcode_matches_no_LF[OF False] by simp
qed

lemma search_postcode:
  "search postcode_format_re s \<noteq> None \<longleftrightarrow> accepted_postcode s"
proof -
  let ?sep = "\<lambda>c. c = CHR ''-'' \<or> is_space c"
  let ?r = "Cat (Rep 5 (Cls is_digit)) (Cat (Opt (Cat (Cls ?sep) (Rep 4 (Cls is_digit)))) Eol)"
  have "search postcode_format_re s \<noteq> None \<longleftrightarrow> ends ?r s 0 \<noteq> []"
    unfolding postcode_format_re_def search_Bol by simp
  also have "\<dots> \<longleftrightarrow> postcode_matches ?sep s"
    unfolding postcode_matches_def by (rule ends_postcode)
  also have "\<dots> \<longleftrightarrow> accepted_postcode s"
    by (rule postcode_matches_accepted)
  finally show ?thesis .
qed

lemma update_postcode_eq:
  "update_postcode postcode invalid =
     (if accepted_postcode postcode then (False, take 5 postcode) else (invalid, postcode))"
  using search_postcode[of postcode] by (auto simp: update_postcode_def split: option.splits)

text \<open>
  C1 (as stated): \<open>update_postcode\<close> returns \<open>(False, first five characters)\<close> exactly for the
  strings that are five digits, or five digits, one hyphen or one space, and four digits, and
  \<open>(True, code)\<close> for every other string. This fails: the separator class of the pattern is
  \<^verbatim>\<open>[-\s]\<close>, which a TAB matches too, and \<^verbatim>\<open>$\<close> accepts a final newline.
\<close>

theorem update_postcode_spec_counterexample:
  "\<not> spec_valid_postcode (''12345'' @ [CHR 0x09] @ ''6789'')
   \<and> update_postcode (''12345'' @ [CHR 0x09] @ ''6789'') True = (False, ''12345'')
   \<and> \<not> spec_valid_postcode (''12345'' @ [LF])
   \<and> update_postcode (''12345'' @ [LF]) True = (False, ''12345'')"
  by (simp add: update_postcode_eq accepted_postcode_def spec_valid_postcode_def chomp_def
      is_zip5_def is_zip9_def is_digit_def is_space_def codepoint_def LF_def)

text \<open>
  C1 (amended): for every string \<open>code\<close>, \<open>update_postcode\<close> returns
  \<open>(False, first five characters of code)\<close> if and only if \<open>code\<close>, without one final newline
  if it has one, is exactly five digits, or five digits followed by one hyphen or one
  whitespace character and four digits; for every other string it returns \<open>(True, code)\<close>
  with the code unchanged.
\<close>

theorem update_postcode_accepted:
  "update_postcode code True =
     (if accepted_postcode code then (False, take 5 code) else (True, code))"
proof (cases "search postcode_format_re code")
  case None
  then have "\<not> accepted_postcode code" using search_postcode[of code] by simp
  with None show ?thesis by (simp add: update_postcode_def)
next
  case (Some m)
  then have "accepted_postcode code" using search_postcode[of code] by simp
  with Some show ?thesis by (simp add: update_postcode_def)
qed

theorem update_postcode_accepted_witness:
  "update_postcode ''98101-1234'' True = (False, ''98101'')
   \<and> update_postcode ''9819'' True = (True, ''9819'')"
  using update_postcode_accepted [of "''98101-1234''"] update_postcode_accepted [of "''9819''"]
  by (simp add: accepted_postcode_def chomp_def is_zip5_def is_zip9_def is_digit_def
      is_space_def codepoint_def LF_def)

section \<open>Street names: proofs\<close>

lemma is_space_LF: "is_space LF"
  by (simp add: is_space_def LF_def codepoint_def)

lemma not_space_dot: "\<not> is_space (CHR ''.'')"
  by (simp add: is_space_def codepoint_def)

lemma at_end_drop: "k \<le> length s \<Longrightarrow> at_end s k \<longleftrightarrow> drop k s = [] \<or> drop k s = [LF]"
proof -
  assume k: "k \<le> length s"
  have "drop k s = [LF] \<longleftrightarrow> Suc k = length s \<and> s ! k = LF"
  proof
    assume d: "drop k s = [LF]"
    then have "length (drop k s) = 1" by simp
    then have l: "Suc k = length s" by simp
    then have "drop k s = [s ! k]"
      by (metis Cons_nth_drop_Suc drop_all lessI order_refl)
    with d l show "Suc k = length s \<and> s ! k = LF" by simp
  next
    assume a: "Suc k = length s \<and> s ! k = LF"
    then have "drop k s = s ! k # drop (Suc k) s"
      by (metis Cons_nth_drop_Suc lessI)
    with a show "drop k s = [LF]" by simp
  qed
  with k show ?thesis by (auto simp: at_end_def)
qed

lemma ends_tail:
  "ends (Cat (Opt (Cls p)) Eol) s j =
     (if j < length s \<and> p (s ! j) \<and> at_end s (Suc j) then [Suc j] else [])
     @ (if at_end s j then [j] else [])"
  by (simp add: ends.simps(1,3,5,6))

lemma ends_Cat_WordB:
  "ends (Cat WordB r) s i = (if word_boundary s i then ends r s i else [])"
  by (simp add: ends.simps(4,5))

lemma run_nth:
  assumes "k < length (takeWhile p (drop i s))"
  shows "i + k < length s \<and> p (s ! (i + k))"
proof -
  let ?Y = "drop i s"
  have le: "length (takeWhile p ?Y) \<le> length ?Y" by (rule length_takeWhile_le)
  with assms have k: "k < length ?Y" by simp
  then have lt: "i + k < length s" by simp
  have "takeWhile p ?Y ! k \<in> set (takeWhile p ?Y)" using assms by simp
  then have "p (takeWhile p ?Y ! k)" by (auto dest: set_takeWhileD)
  moreover have "takeWhile p ?Y ! k = ?Y ! k" using assms by (rule takeWhile_nth)
  moreover have "?Y ! k = s ! (i + k)" using lt by simp
  ultimately show ?thesis using lt by simp
qed

lemma run_stop:
  assumes "i + length (takeWhile p (drop i s)) < length s"
  shows "\<not> p (s ! (i + length (takeWhile p (drop i s))))"
proof -
  let ?Y = "drop i s"
  from assms have "length (takeWhile p ?Y) < length ?Y" by simp
  then have "\<not> p (?Y ! length (takeWhile p ?Y))" by (rule nth_length_takeWhile)
  moreover have "?Y ! length (takeWhile p ?Y) = s ! (i + length (takeWhile p ?Y))"
    using assms by simp
  ultimately show ?thesis by simp
qed

lemma run_le: "i \<le> length s \<Longrightarrow> i + length (takeWhile p (drop i s)) \<le> length s"
proof -
  assume i: "i \<le> length s"
  have "length (takeWhile p (drop i s)) \<le> length (drop i s)" by (rule length_takeWhile_le)
  with i show ?thesis by simp
qed

lemma not_at_end_in_run:
  assumes "i \<le> k" "k < i + length (takeWhile nonspace (drop i s))"
  shows "\<not> at_end s k"
proof -
  from assms have "k - i < length (takeWhile nonspace (drop i s))" by arith
  from run_nth[OF this] assms(1) have "k < length s" "nonspace (s ! k)" by simp_all
  then have "k \<noteq> length s" "s ! k \<noteq> LF" using is_space_LF by (auto simp: nonspace_def)
  then show ?thesis by (simp add: at_end_def)
qed

lemma no_dot_at_run_end:
  assumes "i \<le> length s"
  shows "\<not> (i + length (takeWhile nonspace (drop i s)) < length s
        \<and> s ! (i + length (takeWhile nonspace (drop i s))) = CHR ''.'')"
proof
  assume a: "i + length (takeWhile nonspace (drop i s)) < length s
        \<and> s ! (i + length (takeWhile nonspace (drop i s))) = CHR ''.''"
  then have "\<not> nonspace (s ! (i + length (takeWhile nonspace (drop i s))))"
    using run_stop[of i nonspace s] by blast
  with a show False using not_space_dot by (simp add: nonspace_def)
qed

lemma ends_run_tail:
  assumes i: "i \<le> length s"
  shows "ends (Cat (Plus nonspace) (Cat (Opt (Cls (\<lambda>c. c = CHR ''.''))) Eol)) s i =
     (if 0 < length (takeWhile nonspace (drop i s))
         \<and> at_end s (i + length (takeWhile nonspace (drop i s)))
      then (i + length (takeWhile nonspace (drop i s)))
           # tl (ends (Cat (Plus nonspace) (Cat (Opt (Cls (\<lambda>c. c = CHR ''.''))) Eol)) s i)
      else [])"
proof -
  define n where "n = length (takeWhile nonspace (drop i s))"
  define T where "T = Cat (Opt (Cls (\<lambda>c. c = CHR ''.''))) Eol"
  have unfold: "ends (Cat (Plus nonspace) T) s i
      = concat (map (ends T s) (rev (map (\<lambda>k. i + k) [1..<Suc n])))"
    unfolding n_def by (simp add: ends.simps(5,7) del: upt_Suc)
  have nodot: "\<not> (i + n < length s \<and> s ! (i + n) = CHR ''.'')"
    unfolding n_def by (rule no_dot_at_run_end[OF i])
  have inside: "\<And>k. i \<le> k \<Longrightarrow> k < i + n \<Longrightarrow> \<not> at_end s k"
    unfolding n_def by (rule not_at_end_in_run)
  show ?thesis
  proof (cases "0 < n \<and> at_end s (i + n)")
    case True
    then have "[1..<Suc n] = [1..<n] @ [n]" by simp
    then have "rev (map (\<lambda>k. i + k) [1..<Suc n]) = (i + n) # rev (map (\<lambda>k. i + k) [1..<n])"
      by simp
    moreover have "ends T s (i + n) = [i + n]"
      unfolding T_def ends_tail using nodot True by auto
    ultimately have "ends (Cat (Plus nonspace) T) s i
        = (i + n) # concat (map (ends T s) (rev (map (\<lambda>k. i + k) [1..<n])))"
      unfolding unfold by simp
    then have "ends (Cat (Plus nonspace) T) s i = (i + n) # tl (ends (Cat (Plus nonspace) T) s i)"
      by simp
    with True show ?thesis unfolding n_def T_def by simp
  next
    case False
    have "\<forall>j\<in>set (rev (map (\<lambda>k. i + k) [1..<Suc n])). ends T s j = []"
    proof
      fix j assume "j \<in> set (rev (map (\<lambda>k. i + k) [1..<Suc n]))"
      then have j: "i < j" "j \<le> i + n" by (auto simp del: upt_Suc)
      then have "0 < n" by arith
      with False have ne: "\<not> at_end s (i + n)" by simp
      have a: "\<not> at_end s j"
      proof (cases "j = i + n")
        case True with ne show ?thesis by simp
      next
        case False with j inside[of j] show ?thesis by simp
      qed
      have b: "\<not> (j < length s \<and> s ! j = CHR ''.'' \<and> at_end s (Suc j))"
      proof (cases "j = i + n")
        case True with nodot show ?thesis by blast
      next
        case F: False
        show ?thesis
        proof (cases "Suc j = i + n")
          case True with ne show ?thesis by simp
        next
          case False with F j inside[of "Suc j"] show ?thesis by simp
        qed
      qed
      from a b show "ends T s j = []" unfolding T_def ends_tail by auto
    qed
    then have "ends (Cat (Plus nonspace) T) s i = []"
      unfolding unfold by (simp del: upt_Suc)
    with False show ?thesis unfolding n_def T_def by simp
  qed
qed

lemma not_nonspace_LF: "\<not> nonspace LF"
  by (simp add: nonspace_def is_space_LF)

lemma chomp_snoc_LF: "chomp (Z @ [LF]) = Z"
  by (simp add: chomp_def)

lemma chomp_id: "\<not> (Y \<noteq> [] \<and> last Y = LF) \<Longrightarrow> chomp Y = Y"
  by (auto simp: chomp_def)

lemma takeWhile_all: "list_all p Y \<Longrightarrow> takeWhile p Y = Y"
  by (induction Y) auto

lemma dropWhile_all: "list_all p Y \<Longrightarrow> dropWhile p Y = []"
  by (induction Y) auto

lemma drop_chomp: "drop i (chomp s) = chomp (drop i s)"
proof (cases "i < length s")
  case True
  then have "last (drop i s) = last s" by simp
  with True show ?thesis by (simp add: chomp_def drop_butlast)
next
  case False
  then show ?thesis by (auto simp: chomp_def)
qed

lemma run_chomp_snoc:
  "(takeWhile nonspace (Z @ [LF]) \<noteq> []
     \<and> (dropWhile nonspace (Z @ [LF]) = [] \<or> dropWhile nonspace (Z @ [LF]) = [LF]))
   \<longleftrightarrow> Z \<noteq> [] \<and> list_all nonspace Z"
proof (cases "list_all nonspace Z")
  case True
  then have "takeWhile nonspace (Z @ [LF]) = Z" "dropWhile nonspace (Z @ [LF]) = [LF]"
    by (simp_all add: list_all_iff not_nonspace_LF)
  with True show ?thesis by simp
next
  case False
  then obtain x where x: "x \<in> set Z" "\<not> nonspace x" by (auto simp: list_all_iff)
  then have "dropWhile nonspace (Z @ [LF]) = dropWhile nonspace Z @ [LF]"
    by (rule dropWhile_append1)
  moreover from x have "dropWhile nonspace Z \<noteq> []" by auto
  ultimately have "\<not> (dropWhile nonspace (Z @ [LF]) = [] \<or> dropWhile nonspace (Z @ [LF]) = [LF])"
    by simp
  with False show ?thesis by simp
qed

lemma run_chomp:
  "(takeWhile nonspace Y \<noteq> [] \<and> (dropWhile nonspace Y = [] \<or> dropWhile nonspace Y = [LF]))
   \<longleftrightarrow> chomp Y \<noteq> [] \<and> list_all nonspace (chomp Y)"
proof (cases "Y \<noteq> [] \<and> last Y = LF")
  case True
  then have Y: "Y = butlast Y @ [LF]" by (metis append_butlast_last_id)
  have "chomp Y = butlast Y" using True by (simp add: chomp_def)
  with run_chomp_snoc[of "butlast Y"] Y show ?thesis by simp
next
  case False
  then have c: "chomp Y = Y" by (rule chomp_id)
  have "dropWhile nonspace Y \<noteq> [LF]"
  proof
    assume d: "dropWhile nonspace Y = [LF]"
    have "Y = takeWhile nonspace Y @ dropWhile nonspace Y" by simp
    with d have "Y = takeWhile nonspace Y @ [LF]" by simp
    then have "Y \<noteq> [] \<and> last Y = LF" by (metis snoc_eq_iff_butlast)
    with False show False by simp
  qed
  then have "(takeWhile nonspace Y \<noteq> [] \<and> (dropWhile nonspace Y = [] \<or> dropWhile nonspace Y = [LF]))
      \<longleftrightarrow> takeWhile nonspace Y \<noteq> [] \<and> dropWhile nonspace Y = []"
    by simp
  also have "\<dots> \<longleftrightarrow> Y \<noteq> [] \<and> list_all nonspace Y"
  proof (cases "list_all nonspace Y")
    case True
    then have "takeWhile nonspace Y = Y" "dropWhile nonspace Y = []"
      by (simp_all add: list_all_iff)
    then show ?thesis using True by (simp only: simp_thms)
  next
    case False
    then have "dropWhile nonspace Y \<noteq> []" by (simp add: list_all_iff)
    with False show ?thesis by simp
  qed
  finally show ?thesis unfolding c .
qed

lemma run_chomp_length:
  assumes "chomp Y \<noteq> []" "list_all nonspace (chomp Y)"
  shows "length (takeWhile nonspace Y) = length (chomp Y)"
proof (cases "Y \<noteq> [] \<and> last Y = LF")
  case True
  then have Y: "Y = butlast Y @ [LF]" by (metis append_butlast_last_id)
  have c: "chomp Y = butlast Y" using True by (simp add: chomp_def)
  with assms have "list_all nonspace (butlast Y)" by simp
  then have "takeWhile nonspace (butlast Y @ [LF]) = butlast Y"
    by (simp add: list_all_iff not_nonspace_LF)
  with Y c show ?thesis by simp
next
  case False
  then have c: "chomp Y = Y" by (rule chomp_id)
  with assms have tw: "takeWhile nonspace Y = Y" by (simp add: list_all_iff)
  show ?thesis unfolding c tw ..
qed

lemma street_type_re_alt:
  "street_type_re = Cat WordB (Cat (Plus nonspace) (Cat (Opt (Cls (\<lambda>c. c = CHR ''.''))) Eol))"
  by (simp add: street_type_re_def)

lemma run_match_chomp:
  assumes i: "i \<le> length s"
  shows "(0 < length (takeWhile nonspace (drop i s))
          \<and> at_end s (i + length (takeWhile nonspace (drop i s))))
         \<longleftrightarrow> i < length (chomp s) \<and> list_all nonspace (drop i (chomp s))"
proof -
  let ?Y = "drop i s"
  let ?n = "length (takeWhile nonspace ?Y)"
  have "drop (i + ?n) s = drop ?n ?Y" by (simp add: add.commute)
  also have "\<dots> = dropWhile nonspace ?Y" by (simp add: dropWhile_eq_drop)
  finally have d: "drop (i + ?n) s = dropWhile nonspace ?Y" .
  have "at_end s (i + ?n) \<longleftrightarrow> dropWhile nonspace ?Y = [] \<or> dropWhile nonspace ?Y = [LF]"
    using at_end_drop[OF run_le[OF i, of nonspace]] unfolding d .
  moreover have "0 < ?n \<longleftrightarrow> takeWhile nonspace ?Y \<noteq> []" by simp
  ultimately have "(0 < ?n \<and> at_end s (i + ?n))
      \<longleftrightarrow> (takeWhile nonspace ?Y \<noteq> []
           \<and> (dropWhile nonspace ?Y = [] \<or> dropWhile nonspace ?Y = [LF]))"
    by (simp only:)
  also have "\<dots> \<longleftrightarrow> chomp ?Y \<noteq> [] \<and> list_all nonspace (chomp ?Y)"
    by (rule run_chomp)
  also have "\<dots> \<longleftrightarrow> i < length (chomp s) \<and> list_all nonspace (drop i (chomp s))"
    unfolding drop_chomp[symmetric] by (simp add: not_le)
  finally show ?thesis .
qed

lemma run_match_end:
  assumes "i < length (chomp s)" "list_all nonspace (drop i (chomp s))"
  shows "i + length (takeWhile nonspace (drop i s)) = length (chomp s)"
proof -
  from assms have "chomp (drop i s) \<noteq> []" "list_all nonspace (chomp (drop i s))"
    unfolding drop_chomp[symmetric] by simp_all
  then have "length (takeWhile nonspace (drop i s)) = length (chomp (drop i s))"
    by (rule run_chomp_length)
  also have "\<dots> = length (chomp s) - i"
    unfolding drop_chomp[symmetric] by simp
  finally show ?thesis using assms(1) by simp
qed

lemma length_chomp_le: "length (chomp s) \<le> length s"
  by (simp add: chomp_def)

lemma street_ends:
  assumes i: "i \<le> length s"
  shows "ends street_type_re s i \<noteq> [] \<longleftrightarrow> street_match s i"
    and "street_match s i \<Longrightarrow> hd (ends street_type_re s i) = length (chomp s)"
proof -
  let ?R = "Cat (Plus nonspace) (Cat (Opt (Cls (\<lambda>c. c = CHR ''.''))) Eol)"
  let ?n = "length (takeWhile nonspace (drop i s))"
  have e: "ends street_type_re s i = (if word_boundary s i then ends ?R s i else [])"
    unfolding street_type_re_alt by (rule ends_Cat_WordB)
  have r: "ends ?R s i = (if 0 < ?n \<and> at_end s (i + ?n) then (i + ?n) # tl (ends ?R s i) else [])"
    by (rule ends_run_tail[OF i])
  have ne: "ends ?R s i \<noteq> [] \<longleftrightarrow> 0 < ?n \<and> at_end s (i + ?n)"
    by (subst r) simp
  show "ends street_type_re s i \<noteq> [] \<longleftrightarrow> street_match s i"
    unfolding e street_match_def run_match_chomp[OF i, symmetric] using ne by simp
  assume m: "street_match s i"
  then have c: "i < length (chomp s)" "list_all nonspace (drop i (chomp s))" and wb: "word_boundary s i"
    by (simp_all add: street_match_def)
  with run_match_chomp[OF i] have t: "0 < ?n \<and> at_end s (i + ?n)" by simp
  then have "hd (ends ?R s i) = i + ?n" by (subst r) simp
  with wb run_match_end[OF c] show "hd (ends street_type_re s i) = length (chomp s)"
    unfolding e by simp
qed

lemma search_from_street:
  "search_from street_type_re s pos False =
     map_option (\<lambda>i. (i, length (chomp s))) (find (street_match s) [pos..<Suc (length s)])"
proof -
  have f: "find (\<lambda>i. ends street_type_re s i \<noteq> []) [pos..<Suc (length s)]
         = find (street_match s) [pos..<Suc (length s)]"
    by (rule find_cong) (simp_all add: street_ends(1) del: upt_Suc)
  show ?thesis
  proof (cases "find (street_match s) [pos..<Suc (length s)]")
    case None
    with f show ?thesis by (simp add: search_from_def del: upt_Suc)
  next
    case (Some i)
    from find_Some_D[OF Some] have "street_match s i" "i \<le> length s" by auto
    then have "hd (ends street_type_re s i) = length (chomp s)"
      by (simp add: street_ends(2))
    with f Some show ?thesis by (simp add: search_from_def del: upt_Suc)
  qed
qed

lemma street_match_lt: "street_match s i \<Longrightarrow> i < length (chomp s)"
  by (simp add: street_match_def)

lemma no_street_match_after:
  "find (street_match s) [length (chomp s)..<Suc (length s)] = None"
  by (auto simp: find_None_iff dest: street_match_lt simp del: upt_Suc)

lemma sub_street:
  "sub street_type_re repl s =
     (case find (street_match s) [0..<Suc (length s)] of
        None \<Rightarrow> s
      | Some b \<Rightarrow> take b s @ repl @ drop (length (chomp s)) s)"
proof (cases "find (street_match s) [0..<Suc (length s)]")
  case None
  then have "search_from street_type_re s 0 False = None"
    by (simp add: search_from_street del: upt_Suc)
  with None show ?thesis
    unfolding sub_def by (subst sub_from.simps) (simp del: upt_Suc)
next
  case (Some b)
  then have first: "search_from street_type_re s 0 False = Some (b, length (chomp s))"
    by (simp add: search_from_street del: upt_Suc)
  from find_Some_D[OF Some] have "b < length (chomp s)" by (auto dest: street_match_lt)
  then have adv: "(length (chomp s) = b) = False" by simp
  have "search_from street_type_re s (length (chomp s)) False = None"
    by (simp add: search_from_street no_street_match_after del: upt_Suc)
  then have rest: "sub_from street_type_re repl s (length (chomp s)) False = drop (length (chomp s)) s"
    by (subst sub_from.simps) simp
  have "sub_from street_type_re repl s 0 False = take b s @ repl @ drop (length (chomp s)) s"
    by (subst sub_from.simps) (simp add: first adv rest)
  with Some show ?thesis unfolding sub_def by (simp del: upt_Suc)
qed

lemma chomp_take: "chomp s = take (length (chomp s)) s"
  by (simp add: chomp_def butlast_conv_take)

lemma update_street_name_match:
  "update_street_name name mp =
     (case find (street_match name) [0..<Suc (length name)] of
        None \<Rightarrow> name
      | Some b \<Rightarrow>
          (case mp (drop b (chomp name)) of
             Some better \<Rightarrow> take b name @ better @ drop (length (chomp name)) name
           | None \<Rightarrow> name))"
proof (cases "find (street_match name) [0..<Suc (length name)]")
  case None
  then show ?thesis
    by (simp add: update_street_name_def search_def search_from_street del: upt_Suc)
next
  case (Some b)
  have "take (length (chomp name) - b) (drop b name) = drop b (take (length (chomp name)) name)"
    by (simp add: drop_take)
  also have "\<dots> = drop b (chomp name)" using chomp_take[of name] by simp
  finally have g: "take (length (chomp name) - b) (drop b name) = drop b (chomp name)" .
  from Some show ?thesis
    by (simp add: update_street_name_def search_def search_from_street g sub_street
        del: upt_Suc split: option.splits)
qed

lemma word_nonspace: "is_word c \<Longrightarrow> nonspace c"
  unfolding is_word_def nonspace_def is_space_def is_digit_def by auto

lemma last_token_decomp:
  obtains pre where "c = pre @ last_token c" "list_all nonspace (last_token c)"
    "pre = [] \<or> \<not> nonspace (last pre)"
proof
  let ?pre = "rev (dropWhile nonspace (rev c))"
  have "?pre @ last_token c = rev (takeWhile nonspace (rev c) @ dropWhile nonspace (rev c))"
    unfolding last_token_def by (simp only: rev_append)
  also have "\<dots> = rev (rev c)" by (simp only: takeWhile_dropWhile_id)
  also have "\<dots> = c" by simp
  finally show "c = ?pre @ last_token c" by (rule sym)
  show "list_all nonspace (last_token c)"
    by (auto simp: last_token_def list_all_iff dest: set_takeWhileD)
  show "?pre = [] \<or> \<not> nonspace (last ?pre)"
  proof (cases "dropWhile nonspace (rev c) = []")
    case True then show ?thesis by simp
  next
    case False
    then have "\<not> nonspace (hd (dropWhile nonspace (rev c)))" by (rule hd_dropWhile)
    with False show ?thesis by (simp add: last_rev)
  qed
qed

lemma suffix_in_last_run:
  assumes c: "c = pre @ tok" and tok: "list_all nonspace tok"
    and pre: "pre = [] \<or> \<not> nonspace (last pre)"
  shows "i < length c \<and> list_all nonspace (drop i c) \<longleftrightarrow> length pre \<le> i \<and> i < length c"
proof (cases "length pre \<le> i")
  case True
  then have "drop i c = drop (i - length pre) tok" unfolding c by simp
  moreover have "list_all nonspace (drop (i - length pre) tok)"
    using tok by (auto simp: list_all_iff dest: in_set_dropD)
  ultimately show ?thesis using True by simp
next
  case False
  then have ne: "pre \<noteq> []" by auto
  with pre have "\<not> nonspace (last pre)" by simp
  moreover from False ne have "last pre \<in> set (drop i pre)"
    by (metis last_drop last_in_set drop_eq_Nil not_le)
  moreover from False have "drop i c = drop i pre @ tok" unfolding c by simp
  ultimately have "\<not> list_all nonspace (drop i c)" by (auto simp: list_all_iff)
  with False show ?thesis by simp
qed

lemma nth_chomp: "i < length (chomp s) \<Longrightarrow> s ! i = chomp s ! i"
  by (metis chomp_take nth_take)

lemma boundary_in_token:
  assumes c: "chomp s = pre @ tok" and pre: "pre = [] \<or> \<not> nonspace (last pre)"
    and k: "k < length tok"
  shows "word_boundary s (length pre + k) \<longleftrightarrow> boundary_in tok k"
proof -
  let ?i = "length pre + k"
  from c k have ic: "?i < length (chomp s)" by simp
  with length_chomp_le[of s] have il: "?i < length s" by simp
  have cur: "s ! ?i = tok ! k"
    using nth_chomp[OF ic] unfolding c by simp
  show ?thesis
  proof (cases "k = 0")
    case True
    have "\<not> (0 < ?i \<and> is_word (s ! (?i - 1)))"
    proof
      assume a: "0 < ?i \<and> is_word (s ! (?i - 1))"
      with True have ne: "pre \<noteq> []" by simp
      from ic have "?i - 1 < length (chomp s)" by simp
      from nth_chomp[OF this] have "s ! (?i - 1) = (pre @ tok) ! (?i - 1)" unfolding c .
      also from True ne have "\<dots> = last pre" by (simp add: nth_append last_conv_nth)
      finally have "is_word (last pre)" using a by simp
      then have "nonspace (last pre)" by (rule word_nonspace)
      with pre ne show False by simp
    qed
    with True il cur show ?thesis
      unfolding word_boundary_def boundary_in_def by auto
  next
    case False
    from ic have "?i - 1 < length (chomp s)" by simp
    from nth_chomp[OF this] have "s ! (?i - 1) = (pre @ tok) ! (?i - 1)" unfolding c .
    also from False have "\<dots> = (pre @ tok) ! (length pre + (k - 1))" by simp
    also have "\<dots> = tok ! (k - 1)" by (rule nth_append_length_plus)
    finally have prev: "s ! (?i - 1) = tok ! (k - 1)" .
    from False il cur prev show ?thesis
      unfolding word_boundary_def boundary_in_def by auto
  qed
qed

lemma no_boundary_before_word:
  assumes "k < length (takeWhile (\<lambda>c. \<not> is_word c) tok)"
  shows "\<not> boundary_in tok k"
proof -
  let ?junk = "takeWhile (\<lambda>c. \<not> is_word c) tok"
  have nw: "\<And>m. m < length ?junk \<Longrightarrow> \<not> is_word (tok ! m)"
  proof -
    fix m assume m: "m < length ?junk"
    then have "?junk ! m \<in> set ?junk" by simp
    then have "\<not> is_word (?junk ! m)" by (auto dest: set_takeWhileD)
    moreover have "?junk ! m = tok ! m" using m by (rule takeWhile_nth)
    ultimately show "\<not> is_word (tok ! m)" by simp
  qed
  from assms have "k - 1 < length ?junk" by simp
  with nw[OF assms] nw[of "k - 1"] show ?thesis by (auto simp: boundary_in_def)
qed

lemma boundary_at_first_word:
  assumes "length (takeWhile (\<lambda>c. \<not> is_word c) tok) < length tok"
  shows "boundary_in tok (length (takeWhile (\<lambda>c. \<not> is_word c) tok))"
proof -
  let ?junk = "takeWhile (\<lambda>c. \<not> is_word c) tok"
  from assms have w: "is_word (tok ! length ?junk)"
    using nth_length_takeWhile[of "\<lambda>c. \<not> is_word c" tok] by simp
  show ?thesis
  proof (cases "length ?junk = 0")
    case True
    with w show ?thesis by (simp add: boundary_in_def)
  next
    case False
    then have "length ?junk - 1 < length ?junk" by simp
    then have "?junk ! (length ?junk - 1) \<in> set ?junk" by (rule nth_mem)
    then have "\<not> is_word (?junk ! (length ?junk - 1))" by (auto dest: set_takeWhileD)
    moreover have "?junk ! (length ?junk - 1) = tok ! (length ?junk - 1)"
      using False by (simp add: takeWhile_nth)
    ultimately show ?thesis using w False by (simp add: boundary_in_def)
  qed
qed

lemma find_upt_least:
  assumes "x < n" "P x" "\<And>y. y < x \<Longrightarrow> \<not> P y"
  shows "find P [0..<n] = Some x"
proof -
  have "\<exists>i<length [0..<n]. P ([0..<n] ! i) \<and> x = [0..<n] ! i \<and> (\<forall>j<i. \<not> P ([0..<n] ! j))"
  proof (intro exI conjI)
    show "x < length [0..<n]" using assms(1) by simp
    show "P ([0..<n] ! x)" using assms(1,2) by simp
    show "x = [0..<n] ! x" using assms(1) by simp
    show "\<forall>j<x. \<not> P ([0..<n] ! j)" using assms(1,3) by simp
  qed
  then show ?thesis by (simp only: find_Some_iff)
qed

lemma street_match_token:
  assumes c: "chomp s = pre @ last_token (chomp s)"
    and pre: "pre = [] \<or> \<not> nonspace (last pre)"
    and tok: "list_all nonspace (last_token (chomp s))"
  shows "street_match s i \<longleftrightarrow>
     length pre \<le> i \<and> i < length (chomp s) \<and> boundary_in (last_token (chomp s)) (i - length pre)"
proof (cases "length pre \<le> i \<and> i < length (chomp s)")
  case True
  let ?tok = "last_token (chomp s)"
  from True c have k: "i - length pre < length ?tok"
    by (metis length_append less_diff_conv2 add.commute)
  from True have i: "length pre + (i - length pre) = i" by simp
  from boundary_in_token[OF c pre k] have "word_boundary s i \<longleftrightarrow> boundary_in ?tok (i - length pre)"
    unfolding i .
  with True suffix_in_last_run[OF c tok pre, of i] show ?thesis
    unfolding street_match_def by blast
next
  case False
  with suffix_in_last_run[OF c tok pre, of i] show ?thesis
    unfolding street_match_def by blast
qed

lemma find_street_match:
  "find (street_match s) [0..<Suc (length s)] =
     (if street_type_of s = [] then None
      else Some (length (chomp s) - length (street_type_of s)))"
  and drop_street_type:
  "drop (length (chomp s) - length (street_type_of s)) (chomp s) = street_type_of s"
proof -
  let ?tok = "last_token (chomp s)"
  let ?j = "length (takeWhile (\<lambda>c. \<not> is_word c) ?tok)"
  obtain pre where c: "chomp s = pre @ ?tok" and tok: "list_all nonspace ?tok"
    and pre: "pre = [] \<or> \<not> nonspace (last pre)"
    by (rule last_token_decomp)
  note m = street_match_token[OF c pre tok]
  have core: "street_type_of s = drop ?j ?tok"
    by (simp add: street_type_of_def dropWhile_eq_drop)
  have jle: "?j \<le> length ?tok" by (rule length_takeWhile_le)
  have lc: "length (chomp s) = length pre + length ?tok"
    by (metis c length_append)
  from jle have pos: "length (chomp s) - length (street_type_of s) = length pre + ?j"
    unfolding core lc by simp
  have "drop (length pre + ?j) (chomp s) = drop ?j ?tok"
    by (subst c) simp
  then have "drop (length (chomp s) - length (street_type_of s)) (chomp s) = drop ?j ?tok"
    by (simp only: pos)
  then show "drop (length (chomp s) - length (street_type_of s)) (chomp s) = street_type_of s"
    by (simp only: core)
  show "find (street_match s) [0..<Suc (length s)] =
     (if street_type_of s = [] then None
      else Some (length (chomp s) - length (street_type_of s)))"
  proof (cases "?j < length ?tok")
    case True
    then have ne: "street_type_of s \<noteq> []" unfolding core by simp
    have x: "length pre + ?j < Suc (length s)"
      using True lc length_chomp_le[of s] by simp
    have Px: "street_match s (length pre + ?j)"
      unfolding m using True lc boundary_at_first_word[OF True] by simp
    have least: "\<And>y. y < length pre + ?j \<Longrightarrow> \<not> street_match s y"
    proof -
      fix y assume y: "y < length pre + ?j"
      show "\<not> street_match s y"
      proof (cases "length pre \<le> y")
        case True
        with y have "y - length pre < ?j" by arith
        then have "\<not> boundary_in ?tok (y - length pre)" by (rule no_boundary_before_word)
        then show ?thesis unfolding m by simp
      next
        case False
        then show ?thesis unfolding m by simp
      qed
    qed
    from find_upt_least[of "length pre + ?j" "Suc (length s)" "street_match s", OF x Px least] ne
    show ?thesis unfolding pos by simp
  next
    case False
    with jle have eq: "?j = length ?tok" by simp
    then have e: "street_type_of s = []" unfolding core by simp
    have "\<And>i. \<not> street_match s i"
    proof -
      fix i
      show "\<not> street_match s i"
      proof (cases "length pre \<le> i \<and> i < length (chomp s)")
        case True
        then have "i - length pre < ?j" unfolding eq lc by arith
        then have "\<not> boundary_in ?tok (i - length pre)" by (rule no_boundary_before_word)
        then show ?thesis unfolding m by simp
      next
        case False
        then show ?thesis unfolding m by blast
      qed
    qed
    then have "find (street_match s) [0..<Suc (length s)] = None"
      by (simp add: find_None_iff del: upt_Suc)
    with e show ?thesis by simp
  qed
qed

lemma update_street_name_eq:
  "update_street_name name mp =
     (if street_type_of name = [] then name
      else case mp (street_type_of name) of
             Some better \<Rightarrow>
               take (length (chomp name) - length (street_type_of name)) name
               @ better @ drop (length (chomp name)) name
           | None \<Rightarrow> name)"
  unfolding update_street_name_match find_street_match
  by (simp add: drop_street_type)

lemma mapping_empty: "mapping [] = None"
  by (simp add: mapping_def)

lemma chomp_cases: "s = chomp s \<or> s = chomp s @ [LF]"
proof (cases "s \<noteq> [] \<and> last s = LF")
  case True
  then have "butlast s @ [LF] = s" by (metis append_butlast_last_id)
  with True show ?thesis by (simp add: chomp_def)
next
  case False
  then show ?thesis by (auto simp: chomp_def)
qed

lemma name_decomp:
  "name = take (length (chomp name) - length (street_type_of name)) name
          @ street_type_of name @ drop (length (chomp name)) name"
proof -
  let ?e = "length (chomp name)" and ?p = "length (chomp name) - length (street_type_of name)"
  have "take ?p name = take ?p (take ?e name)" by (simp add: min_def)
  also have "\<dots> = take ?p (chomp name)" using chomp_take[of name] by simp
  finally have t: "take ?p name = take ?p (chomp name)" .
  have "take ?e name @ drop ?e name = name" by (rule append_take_drop_id)
  then have A: "chomp name @ drop ?e name = name" using chomp_take[of name] by simp
  have "take ?p (chomp name) @ drop ?p (chomp name) = chomp name" by (rule append_take_drop_id)
  then have B: "take ?p (chomp name) @ street_type_of name = chomp name"
    by (simp only: drop_street_type)
  from A B show ?thesis unfolding t by (metis append_assoc)
qed

lemma last_token_append_nonspace:
  assumes "list_all nonspace b"
  shows "last_token (X @ b) = last_token X @ b"
proof -
  from assms have "\<And>x. x \<in> set (rev b) \<Longrightarrow> nonspace x" by (simp add: list_all_iff)
  then have "takeWhile nonspace (rev b @ rev X) = rev b @ takeWhile nonspace (rev X)"
    by (rule takeWhile_append2)
  then show ?thesis by (simp add: last_token_def)
qed

lemma last_token_after_space:
  assumes "pre = [] \<or> \<not> nonspace (last pre)"
  shows "last_token pre = []"
proof (cases "pre = []")
  case True then show ?thesis by (simp add: last_token_def)
next
  case False
  with assms have "\<not> nonspace (hd (rev pre))" by (simp add: hd_rev)
  moreover from False have "rev pre = hd (rev pre) # tl (rev pre)" by simp
  ultimately have "takeWhile nonspace (rev pre) = []"
    by (metis takeWhile.simps(2))
  then show ?thesis by (simp add: last_token_def)
qed

lemma nonspace_not_LF: "nonspace c \<Longrightarrow> c \<noteq> LF"
  using not_nonspace_LF by auto

lemma chomp_append_nonspace:
  assumes "b \<noteq> []" "list_all nonspace b"
  shows "chomp (X @ b) = X @ b"
proof -
  from assms have "last b \<in> set b" by simp
  with assms(2) have "nonspace (last b)" by (simp add: list_all_iff)
  then have "last (X @ b) \<noteq> LF" using assms(1) by (simp add: nonspace_not_LF)
  then show ?thesis by (simp add: chomp_def)
qed

lemma street_type_of_replaced:
  assumes b: "b \<noteq> []" "list_all nonspace b" "is_word (hd b)"
  shows "street_type_of (take (length (chomp name) - length (street_type_of name)) name
           @ b @ drop (length (chomp name)) name) = b"
    and "chomp (take (length (chomp name) - length (street_type_of name)) name
           @ b @ drop (length (chomp name)) name)
         = take (length (chomp name) - length (street_type_of name)) name @ b"
proof -
  let ?c = "chomp name"
  let ?tok = "last_token ?c"
  let ?junk = "takeWhile (\<lambda>c. \<not> is_word c) ?tok"
  let ?p = "length ?c - length (street_type_of name)"
  let ?X = "take ?p name"
  let ?nl = "drop (length ?c) name"
  obtain pre where c: "?c = pre @ ?tok" and tok: "list_all nonspace ?tok"
    and pre: "pre = [] \<or> \<not> nonspace (last pre)"
    by (rule last_token_decomp)
  have tokd: "?tok = ?junk @ street_type_of name"
    by (simp add: street_type_of_def)
  have cd: "?c = (pre @ ?junk) @ street_type_of name" using c tokd by simp
  then have "length ?c = length (pre @ ?junk) + length (street_type_of name)"
    by (metis length_append)
  then have p: "?p = length (pre @ ?junk)" by simp
  have "?X = take ?p (take (length ?c) name)" by (simp add: min_def)
  also have "\<dots> = take ?p ?c" using chomp_take[of name] by simp
  finally have "?X = take ?p ?c" .
  with cd p have X: "?X = pre @ ?junk" by (metis append_eq_conv_conj)
  have junk_ns: "list_all nonspace ?junk"
    using tok by (auto simp: list_all_iff dest: set_takeWhileD)
  have nl: "?nl = [] \<or> ?nl = [LF]"
    using chomp_cases[of name] by (metis append_eq_conv_conj append_Nil2)
  have ch: "chomp (?X @ b @ ?nl) = ?X @ b"
  proof -
    from nl show ?thesis
    proof
      assume "?nl = []"
      then show ?thesis using chomp_append_nonspace[OF b(1,2), of ?X] by simp
    next
      assume "?nl = [LF]"
      then have "?X @ b @ ?nl = (?X @ b) @ [LF]" by simp
      then show ?thesis by (simp only: chomp_snoc_LF)
    qed
  qed
  then show "chomp (?X @ b @ ?nl) = ?X @ b" .
  have "last_token (?X @ b) = last_token ?X @ b"
    using b(2) by (rule last_token_append_nonspace)
  also have "last_token ?X = last_token pre @ ?junk"
    unfolding X using junk_ns by (rule last_token_append_nonspace)
  also have "last_token pre = []" using pre by (rule last_token_after_space)
  finally have lt: "last_token (?X @ b) = ?junk @ b" by simp
  have "dropWhile (\<lambda>c. \<not> is_word c) (?junk @ b) = dropWhile (\<lambda>c. \<not> is_word c) b"
    by (rule dropWhile_append2) (auto dest: set_takeWhileD)
  also have "\<dots> = b" using b(1,3) by (cases b) simp_all
  finally have dw: "dropWhile (\<lambda>c. \<not> is_word c) (?junk @ b) = b" .
  have "street_type_of (?X @ b @ ?nl)
      = dropWhile (\<lambda>c. \<not> is_word c) (last_token (chomp (?X @ b @ ?nl)))"
    by (rule street_type_of_def)
  also have "\<dots> = dropWhile (\<lambda>c. \<not> is_word c) (?junk @ b)"
    by (simp only: ch lt)
  finally show "street_type_of (?X @ b @ ?nl) = b"
    by (simp only: dw)
qed

lemma mapping_ran: "mapping k = Some b \<Longrightarrow> b \<in> set expansions"
proof -
  assume "mapping k = Some b"
  then have "(k, b) \<in> set [(''St'', ''Street''),
      (''St.'', ''Street''),
      (''Rd.'', ''Road''),
      (''Ave'', ''Avenue''),
      (''NE'', ''Northeast''),
      (''NW'', ''Northwest''),
      (''SE'', ''Southeast''),
      (''SW'', ''Southwest''),
      (''WY'', ''Way''),
      (''Ln'', ''Lane''),
      (''ln'', ''Lane'')]"
    unfolding mapping_def by (rule map_of_SomeD)
  then show ?thesis unfolding expansions_def by auto
qed

lemma expansions_nonempty: "list_all (\<lambda>b. b \<noteq> []) expansions"
  by (simp add: expansions_def)

lemma expansions_unmapped: "list_all (\<lambda>b. mapping b = None) expansions"
  by (simp add: expansions_def mapping_def)

lemma letter_word: "is_ascii_letter c \<Longrightarrow> is_word c"
  by (auto simp: is_ascii_letter_def is_word_def)

lemma expansions_letters: "list_all (list_all is_ascii_letter) expansions"
  by (simp add: expansions_def is_ascii_letter_def codepoint_def)

lemma expansion_props:
  assumes "mapping k = Some b"
  shows "b \<noteq> []" "list_all nonspace b" "is_word (hd b)" "mapping b = None"
proof -
  from assms have m: "b \<in> set expansions" by (rule mapping_ran)
  with expansions_nonempty show ne: "b \<noteq> []" by (simp add: list_all_iff)
  from m expansions_unmapped show "mapping b = None" by (simp add: list_all_iff)
  from m expansions_letters have l: "\<forall>c\<in>set b. is_ascii_letter c"
    by (simp add: list_all_iff)
  then have w: "\<forall>c\<in>set b. is_word c" by (blast intro: letter_word)
  then show "list_all nonspace b" by (auto simp: list_all_iff intro: word_nonspace)
  from ne have "hd b \<in> set b" by simp
  with w show "is_word (hd b)" by blast
qed

text \<open>
  C6 (as stated): when the final whitespace-delimited token of the name is a key of the
  mapping, exactly that token is replaced by its expansion; when it is not a key, the name
  is returned unchanged. The second half fails: the match starts at a word boundary
  (\<^verbatim>\<open>\b\<close>), so in \<open>Main #St\<close> the pattern matches \<open>St\<close>, a key, although the final token
  \<open>#St\<close> is not one. The first half fails for a name that ends in a space: the pattern must
  reach the end of the string, so nothing matches in \<open>Main St\<close> followed by a space.
\<close>

theorem update_street_name_token_counterexample:
  "spec_final_token ''Main #St'' = ''#St'' \<and> mapping ''#St'' = None
   \<and> update_street_name ''Main #St'' mapping = ''Main #Street''
   \<and> spec_final_token ''Main St '' = ''St'' \<and> mapping ''St'' = Some ''Street''
   \<and> update_street_name ''Main St '' mapping = ''Main St ''"
  by (simp add: spec_final_token_def str_split_def is_space_def codepoint_def mapping_def
      update_street_name_eq street_type_of_def last_token_def chomp_def nonspace_def LF_def
      is_word_def is_digit_def)

text \<open>
  C6 (amended): for every street name, let \<open>t\<close> be the final run of non-whitespace
  characters of the name (one final newline set aside) without its leading non-word
  characters. The name is the text before \<open>t\<close>, then \<open>t\<close>, then the final newline if any. If
  \<open>t\<close> is, under case-sensitive comparison, a key of the abbreviation mapping,
  \<open>update_street_name\<close> replaces exactly \<open>t\<close> with the mapped expansion and leaves the rest of
  the name unchanged; otherwise it returns the name unchanged.
\<close>

theorem update_street_name_street_type:
  "name = take (length (chomp name) - length (street_type_of name)) name
          @ street_type_of name @ drop (length (chomp name)) name
   \<and> update_street_name name mapping =
      (case mapping (street_type_of name) of
         Some better \<Rightarrow>
           take (length (chomp name) - length (street_type_of name)) name
           @ better @ drop (length (chomp name)) name
       | None \<Rightarrow> name)"
proof
  show "name = take (length (chomp name) - length (street_type_of name)) name
          @ street_type_of name @ drop (length (chomp name)) name"
    by (rule name_decomp)
  show "update_street_name name mapping =
      (case mapping (street_type_of name) of
         Some better \<Rightarrow>
           take (length (chomp name) - length (street_type_of name)) name
           @ better @ drop (length (chomp name)) name
       | None \<Rightarrow> name)"
    by (cases "street_type_of name = []") (simp_all add: update_street_name_eq mapping_empty)
qed

theorem update_street_name_street_type_witness:
  "update_street_name ''Elm Rd.'' mapping = ''Elm Road''
   \<and> update_street_name ''Main Boulevard'' mapping = ''Main Boulevard''"
  using update_street_name_street_type [of "''Elm Rd.''"]
        update_street_name_street_type [of "''Main Boulevard''"]
  by (simp add: street_type_of_def last_token_def chomp_def nonspace_def is_space_def
      is_word_def is_digit_def codepoint_def LF_def mapping_def)

text \<open>
  C8: \<open>update_street_name\<close> with the fixed mapping is idempotent: applied to its own output
  it returns that output unchanged, because every expansion is a run of letters that is not
  itself a key of the mapping.
\<close>

theorem update_street_name_idempotent:
  "update_street_name (update_street_name name mapping) mapping = update_street_name name mapping"
proof (cases "street_type_of name \<noteq> [] \<and> mapping (street_type_of name) \<noteq> None")
  case False
  then have "update_street_name name mapping = name"
    by (auto simp: update_street_name_eq)
  then show ?thesis by simp
next
  case True
  then obtain b where b: "mapping (street_type_of name) = Some b" by auto
  let ?out = "take (length (chomp name) - length (street_type_of name)) name
               @ b @ drop (length (chomp name)) name"
  from True b have out: "update_street_name name mapping = ?out"
    by (simp add: update_street_name_eq)
  note props = expansion_props[OF b]
  have "street_type_of ?out = b"
    using props(1,2,3) by (rule street_type_of_replaced(1))
  then have "update_street_name ?out mapping = ?out"
    by (simp add: update_street_name_eq[of ?out] props(4))
  then show ?thesis unfolding out .
qed

theorem update_street_name_idempotent_witness:
  "update_street_name ''Main St'' mapping = ''Main Street''
   \<and> update_street_name ''Main Street'' mapping = ''Main Street''"
proof -
  have "update_street_name ''Main St'' mapping = ''Main Street''"
    by (simp add: update_street_name_eq street_type_of_def last_token_def chomp_def nonspace_def
        is_space_def is_word_def is_digit_def codepoint_def LF_def mapping_def)
  with update_street_name_idempotent [of "''Main St''"] show ?thesis by simp
qed

section \<open>City names: proofs\<close>


















section \<open>Extraction and the driver: proofs\<close>


lemma copy_attribs_Inr:
  "copy_attribs a fs acc = Inr r \<longleftrightarrow>
     (\<forall>f\<in>set fs. a f \<noteq> None) \<and> r = acc ++ (a |` set fs)"
proof (induction fs arbitrary: acc)
  case Nil
  then show ?case by auto
next
  case (Cons f fs)
  show ?case
  proof (cases "a f")
    case None
    then show ?thesis by simp
  next
    case (Some v)
    have eq: "acc(f \<mapsto> v) ++ (a |` set fs) = acc ++ (a |` set (f # fs))"
      by (rule ext) (auto simp: map_add_def restrict_map_def Some split: option.splits)
    have step: "copy_attribs a (f # fs) acc = copy_attribs a fs (acc(f \<mapsto> v))"
      using Some by simp
    have "(copy_attribs a (f # fs) acc = Inr r)
        \<longleftrightarrow> (\<forall>f\<in>set fs. a f \<noteq> None) \<and> r = acc(f \<mapsto> v) ++ (a |` set fs)"
      unfolding step by (rule Cons.IH)
    also have "\<dots> \<longleftrightarrow> (\<forall>f\<in>set fs. a f \<noteq> None) \<and> r = acc ++ (a |` set (f # fs))"
      by (simp only: eq)
    also have "\<dots> \<longleftrightarrow> (\<forall>f\<in>set (f # fs). a f \<noteq> None) \<and> r = acc ++ (a |` set (f # fs))"
      using Some by simp
    finally show ?thesis .
  qed
qed

lemma copy_attribs_Inl:
  "copy_attribs a fs acc = Inl e \<Longrightarrow> \<exists>f\<in>set fs. a f = None \<and> e = KeyError f"
  by (induction fs arbitrary: acc) (auto split: option.splits)

lemma tags_loop_Inr:
  "tags_loop body ts acc = Inr tags \<longleftrightarrow>
     (\<forall>t\<in>set ts. \<exists>r. body t = Inr r) \<and> tags = acc @ emitted body ts"
proof (induction ts arbitrary: acc)
  case Nil
  then show ?case by (auto simp: emitted_def)
next
  case (Cons t ts)
  show ?case
  proof (cases "body t")
    case (Inl e)
    then show ?thesis by auto
  next
    case (Inr r)
    then show ?thesis
      using Cons.IH[of acc] Cons.IH[of "acc @ [the r]"]
      by (cases r) (auto simp: emitted_def)
  qed
qed

lemma tags_loop_Inl:
  "tags_loop body ts acc = Inl e \<Longrightarrow> \<exists>t\<in>set ts. body t = Inl e"
  by (induction ts arbitrary: acc) (auto split: sum.splits option.splits)

lemma nodes_loop_Inr:
  assumes "attribs ''id'' = Some i"
  shows "nodes_loop attribs xs acc = Inr ns \<longleftrightarrow>
     (\<forall>x\<in>set xs. attrib (snd x) ''ref'' \<noteq> None)
     \<and> ns = acc @ map (\<lambda>x. \<lparr>wn_id = i, node_id = the (attrib (snd x) ''ref''), position = fst x\<rparr>) xs"
proof (induction xs arbitrary: acc)
  case Nil
  then show ?case by auto
next
  case (Cons x xs)
  obtain c nd where x: "x = (c, nd)" by (cases x)
  show ?case
  proof (cases "attrib nd ''ref''")
    case None
    with assms x show ?thesis by simp
  next
    case (Some ref)
    with assms x Cons.IH[of "acc @ [\<lparr>wn_id = i, node_id = ref, position = c\<rparr>]"]
    show ?thesis by simp
  qed
qed

lemma nodes_loop_Inl:
  "nodes_loop attribs xs acc = Inl e \<Longrightarrow> e = KeyError ''id'' \<or> e = KeyError ''ref''"
  by (induction attribs xs acc rule: nodes_loop.induct) (auto split: option.splits)

lemma shape_tag_returns:
  "(\<exists>r. shape_tag pc d attribs t = Inr r) \<longleftrightarrow>
     attribs ''id'' \<noteq> None \<and> attrib t ''v'' \<noteq> None \<and> attrib t ''k'' \<noteq> None"
  by (auto simp: shape_tag_def Let_def split: option.splits)

lemma shape_tag_Inl:
  "shape_tag pc d attribs t = Inl e \<Longrightarrow> e \<in> {KeyError ''id'', KeyError ''v'', KeyError ''k''}"
  by (auto simp: shape_tag_def Let_def split: option.splits if_splits)

lemma shape_tag_id_only:
  "attribs ''id'' = attribs' ''id'' \<Longrightarrow> shape_tag pc d attribs t = shape_tag pc d attribs' t"
  by (simp add: shape_tag_def)

lemma restrict_id_NODE: "(a |` set NODE_FIELDS) ''id'' = a ''id''"
  by (simp add: NODE_FIELDS_def)

lemma restrict_id_WAY: "(a |` set WAY_FIELDS) ''id'' = a ''id''"
  by (simp add: WAY_FIELDS_def)

lemma emitted_cong:
  "(\<And>t. body t = body' t) \<Longrightarrow> emitted body ts = emitted body' ts"
  by (simp add: emitted_def)

lemma extract_node_Inr:
  "extract_node e NODE_FIELDS pc d = Inr x \<longleftrightarrow>
     (\<forall>f\<in>set NODE_FIELDS. attrib e f \<noteq> None)
     \<and> (\<forall>t\<in>set (iter ''tag'' e). attrib t ''v'' \<noteq> None \<and> attrib t ''k'' \<noteq> None)
     \<and> x = NodeDict (attrib e |` set NODE_FIELDS)
                      (emitted (shape_tag pc d (attrib e)) (iter ''tag'' e))"
proof (cases "\<forall>f\<in>set NODE_FIELDS. attrib e f \<noteq> None")
  case False
  then have "\<And>r. copy_attribs (attrib e) NODE_FIELDS Map.empty \<noteq> Inr r"
    by (simp add: copy_attribs_Inr)
  then have "extract_node e NODE_FIELDS pc d \<noteq> Inr x"
    by (auto simp: extract_node_def split: sum.splits)
  with False show ?thesis by blast
next
  case True
  let ?attribs = "attrib e |` set NODE_FIELDS"
  from True have c: "copy_attribs (attrib e) NODE_FIELDS Map.empty = Inr ?attribs"
    by (simp add: copy_attribs_Inr)
  from True have "attrib e ''id'' \<noteq> None" by (simp add: NODE_FIELDS_def)
  then have id: "?attribs ''id'' \<noteq> None" by (simp add: restrict_id_NODE)
  have b: "\<And>t. shape_tag pc d ?attribs t = shape_tag pc d (attrib e) t"
    by (rule shape_tag_id_only) (rule restrict_id_NODE)
  have "extract_node e NODE_FIELDS pc d = Inr x \<longleftrightarrow>
      (\<exists>tags. tags_loop (shape_tag pc d ?attribs) (iter ''tag'' e) [] = Inr tags
              \<and> x = NodeDict ?attribs tags)"
    by (auto simp: extract_node_def c split: sum.splits)
  also have "\<dots> \<longleftrightarrow> (\<forall>t\<in>set (iter ''tag'' e). \<exists>r. shape_tag pc d ?attribs t = Inr r)
       \<and> x = NodeDict ?attribs (emitted (shape_tag pc d ?attribs) (iter ''tag'' e))"
    by (auto simp: tags_loop_Inr)
  also have "\<dots> \<longleftrightarrow> (\<forall>t\<in>set (iter ''tag'' e). attrib t ''v'' \<noteq> None \<and> attrib t ''k'' \<noteq> None)
       \<and> x = NodeDict ?attribs (emitted (shape_tag pc d (attrib e)) (iter ''tag'' e))"
    unfolding shape_tag_returns using id by (simp add: emitted_cong[OF b])
  finally show ?thesis using True by simp
qed

lemma extract_node_Inl:
  assumes "extract_node e NODE_FIELDS pc d = Inl err"
  shows "\<exists>k. err = KeyError k"
proof (cases "copy_attribs (attrib e) NODE_FIELDS Map.empty")
  case (Inl a)
  with assms have "err = a" by (simp add: extract_node_def)
  with copy_attribs_Inl[OF Inl] show ?thesis by blast
next
  case (Inr attribs)
  with assms have "tags_loop (shape_tag pc d attribs) (iter ''tag'' e) [] = Inl err"
    by (auto simp: extract_node_def split: sum.splits)
  from tags_loop_Inl[OF this] obtain t where "shape_tag pc d attribs t = Inl err" by blast
  from shape_tag_Inl[OF this] show ?thesis by auto
qed

lemma extract_node_missing:
  assumes "\<exists>f\<in>set NODE_FIELDS. attrib e f = None"
  shows "\<exists>f\<in>set NODE_FIELDS. attrib e f = None \<and> extract_node e NODE_FIELDS pc d = Inl (KeyError f)"
proof (cases "copy_attribs (attrib e) NODE_FIELDS Map.empty")
  case (Inl a)
  from copy_attribs_Inl[OF Inl] obtain f where "f \<in> set NODE_FIELDS" "attrib e f = None" "a = KeyError f"
    by blast
  with Inl show ?thesis by (auto simp: extract_node_def)
next
  case (Inr r)
  with assms show ?thesis by (auto simp: copy_attribs_Inr)
qed

lemma extract_way_Inr:
  "extract_way e WAY_FIELDS pc d = Inr x \<longleftrightarrow>
     (\<forall>f\<in>set WAY_FIELDS. attrib e f \<noteq> None)
     \<and> (\<forall>t\<in>set (iter ''tag'' e). attrib t ''v'' \<noteq> None \<and> attrib t ''k'' \<noteq> None)
     \<and> (\<forall>nd\<in>set (iter ''nd'' e). attrib nd ''ref'' \<noteq> None)
     \<and> x = WayDict (attrib e |` set WAY_FIELDS) (way_node_rows e)
                     (emitted (shape_tag PROBLEMCHARS d (attrib e)) (iter ''tag'' e))"
proof (cases "\<forall>f\<in>set WAY_FIELDS. attrib e f \<noteq> None")
  case False
  then have "\<And>r. copy_attribs (attrib e) WAY_FIELDS Map.empty \<noteq> Inr r"
    by (simp add: copy_attribs_Inr)
  then have "extract_way e WAY_FIELDS pc d \<noteq> Inr x"
    by (auto simp: extract_way_def split: sum.splits)
  with False show ?thesis by blast
next
  case True
  let ?attribs = "attrib e |` set WAY_FIELDS"
  let ?tags = "emitted (shape_tag PROBLEMCHARS d (attrib e)) (iter ''tag'' e)"
  from True have c: "copy_attribs (attrib e) WAY_FIELDS Map.empty = Inr ?attribs"
    by (simp add: copy_attribs_Inr)
  from True have "attrib e ''id'' \<noteq> None" by (simp add: WAY_FIELDS_def)
  then obtain i where i: "attrib e ''id'' = Some i" by blast
  then have id: "?attribs ''id'' = Some i" by (simp add: restrict_id_WAY)
  have b: "\<And>t. shape_tag PROBLEMCHARS d ?attribs t = shape_tag PROBLEMCHARS d (attrib e) t"
    by (rule shape_tag_id_only) (rule restrict_id_WAY)
  have T: "\<And>tags. tags_loop (shape_tag PROBLEMCHARS d ?attribs) (iter ''tag'' e) [] = Inr tags
      \<longleftrightarrow> (\<forall>t\<in>set (iter ''tag'' e). attrib t ''v'' \<noteq> None \<and> attrib t ''k'' \<noteq> None)
           \<and> tags = ?tags"
    unfolding tags_loop_Inr shape_tag_returns using id by (simp add: emitted_cong[OF b])
  have N: "\<And>ns. nodes_loop ?attribs (enumerate 0 (iter ''nd'' e)) [] = Inr ns
      \<longleftrightarrow> (\<forall>nd\<in>set (iter ''nd'' e). attrib nd ''ref'' \<noteq> None) \<and> ns = way_node_rows e"
  proof -
    fix ns
    have "(\<forall>x\<in>set (enumerate 0 (iter ''nd'' e)). attrib (snd x) ''ref'' \<noteq> None)
        \<longleftrightarrow> (\<forall>nd\<in>set (iter ''nd'' e). attrib nd ''ref'' \<noteq> None)"
    proof -
      have "set (iter ''nd'' e) = snd ` set (enumerate 0 (iter ''nd'' e))"
        by (metis map_snd_enumerate set_map)
      then show ?thesis by simp
    qed
    then show "nodes_loop ?attribs (enumerate 0 (iter ''nd'' e)) [] = Inr ns
      \<longleftrightarrow> (\<forall>nd\<in>set (iter ''nd'' e). attrib nd ''ref'' \<noteq> None) \<and> ns = way_node_rows e"
      unfolding nodes_loop_Inr[of "attrib e |` set WAY_FIELDS" i, OF id] way_node_rows_def i by simp
  qed
  have "extract_way e WAY_FIELDS pc d = Inr x \<longleftrightarrow>
      (\<exists>tags ns. tags_loop (shape_tag PROBLEMCHARS d ?attribs) (iter ''tag'' e) [] = Inr tags
              \<and> nodes_loop ?attribs (enumerate 0 (iter ''nd'' e)) [] = Inr ns
              \<and> x = WayDict ?attribs ns tags)"
    by (auto simp: extract_way_def c split: sum.splits)
  also have "\<dots> \<longleftrightarrow> (\<forall>t\<in>set (iter ''tag'' e). attrib t ''v'' \<noteq> None \<and> attrib t ''k'' \<noteq> None)
     \<and> (\<forall>nd\<in>set (iter ''nd'' e). attrib nd ''ref'' \<noteq> None)
     \<and> x = WayDict ?attribs (way_node_rows e) ?tags"
    unfolding T N by blast
  finally show ?thesis using True by simp
qed

lemma extract_way_Inl:
  assumes "extract_way e WAY_FIELDS pc d = Inl err"
  shows "\<exists>k. err = KeyError k"
proof (cases "copy_attribs (attrib e) WAY_FIELDS Map.empty")
  case (Inl a)
  with assms have "err = a" by (simp add: extract_way_def)
  with copy_attribs_Inl[OF Inl] show ?thesis by blast
next
  case (Inr attribs)
  show ?thesis
  proof (cases "tags_loop (shape_tag PROBLEMCHARS d attribs) (iter ''tag'' e) []")
    case (Inl a)
    with Inr assms have "err = a" by (simp add: extract_way_def)
    with tags_loop_Inl[OF Inl] obtain t where "shape_tag PROBLEMCHARS d attribs t = Inl err" by blast
    from shape_tag_Inl[OF this] show ?thesis by auto
  next
    case tags: (Inr tags)
    with Inr assms have "nodes_loop attribs (enumerate 0 (iter ''nd'' e)) [] = Inl err"
      by (auto simp: extract_way_def split: sum.splits)
    from nodes_loop_Inl[OF this] show ?thesis by auto
  qed
qed

lemma extract_way_missing:
  assumes "\<exists>f\<in>set WAY_FIELDS. attrib e f = None"
  shows "\<exists>f\<in>set WAY_FIELDS. attrib e f = None \<and> extract_way e WAY_FIELDS pc d = Inl (KeyError f)"
proof (cases "copy_attribs (attrib e) WAY_FIELDS Map.empty")
  case (Inl a)
  from copy_attribs_Inl[OF Inl] obtain f where "f \<in> set WAY_FIELDS" "attrib e f = None" "a = KeyError f"
    by blast
  with Inl show ?thesis by (auto simp: extract_way_def)
next
  case (Inr r)
  with assms show ?thesis by (auto simp: copy_attribs_Inr)
qed









lemma iter_leaf: "children c = [] \<Longrightarrow> iter name c = (if tag c = name then [c] else [])"
  by (cases c) simp

lemma concat_iter_leaves:
  "\<forall>c\<in>set cs. children c = [] \<Longrightarrow> concat (map (iter name) cs) = filter (\<lambda>c. tag c = name) cs"
  by (induction cs) (simp_all add: iter_leaf)

lemma iter_flat:
  assumes "tag e \<noteq> name" "\<forall>c\<in>set (children e). children c = []"
  shows "iter name e = filter (\<lambda>c. tag c = name) (children e)"
  using assms by (cases e) (simp add: concat_iter_leaves)

lemma extract_node_returns:
  "(\<exists>x. extract_node e NODE_FIELDS pc d = Inr x) \<longleftrightarrow>
     list_all (\<lambda>f. attrib e f \<noteq> None) NODE_FIELDS \<and> tags_complete e"
  unfolding extract_node_Inr tags_complete_def by (simp add: list_all_iff)

lemma extract_way_returns:
  "(\<exists>x. extract_way e WAY_FIELDS pc d = Inr x) \<longleftrightarrow>
     list_all (\<lambda>f. attrib e f \<noteq> None) WAY_FIELDS \<and> tags_complete e
     \<and> list_all (\<lambda>n. attrib n ''ref'' \<noteq> None) (iter ''nd'' e)"
  unfolding extract_way_Inr tags_complete_def by (simp add: list_all_iff)

lemma way_node_rows_nth:
  assumes "n < length (iter ''nd'' e)"
  shows "way_node_rows e ! n =
     \<lparr>wn_id = the (attrib e ''id''), node_id = the (attrib (iter ''nd'' e ! n) ''ref''), position = n\<rparr>"
  using assms by (simp add: way_node_rows_def nth_enumerate_eq)

lemma way_node_rows_positions: "map position (way_node_rows e) = [0..<length (iter ''nd'' e)]"
proof -
  have "map position (way_node_rows e) = map fst (enumerate 0 (iter ''nd'' e))"
    by (simp add: way_node_rows_def comp_def)
  then show ?thesis by (simp add: map_fst_enumerate)
qed

text \<open>
  C7 (as stated): \<open>extract_way\<close> emits one way-node record per nd child of the way, with the
  child's zero-based index as position. This fails for a way with an nd element below one
  of its children: \<^verbatim>\<open>element.iter("nd")\<close> walks the whole subtree, so such an element gets a
  record too, and the positions count it.
\<close>

theorem way_nodes_children_counterexample:
  "map (\<lambda>c. attrib c ''ref'') (filter (\<lambda>c. tag c = ''nd'') (children nested_way)) = [Some ''8'']
   \<and> map_sum id way_nodes (extract_way nested_way WAY_FIELDS PROBLEMCHARS ''regular'')
       = Inr [\<lparr>wn_id = ''9'', node_id = ''7'', position = 0\<rparr>,
              \<lparr>wn_id = ''9'', node_id = ''8'', position = 1\<rparr>]"
proof
  show "map (\<lambda>c. attrib c ''ref'') (filter (\<lambda>c. tag c = ''nd'') (children nested_way)) = [Some ''8'']"
    by (simp add: nested_way_def way_with_def the_nd_def)
  show "map_sum id way_nodes (extract_way nested_way WAY_FIELDS PROBLEMCHARS ''regular'')
       = Inr [\<lparr>wn_id = ''9'', node_id = ''7'', position = 0\<rparr>,
              \<lparr>wn_id = ''9'', node_id = ''8'', position = 1\<rparr>]"
    by code_simp
qed

text \<open>
  C7 (amended): for every way element, \<open>extract_way\<close> (when it returns) emits one way-node
  record for each nd element that \<^verbatim>\<open>element.iter("nd")\<close> finds in the way, children and deeper
  descendants alike, in document order, with \<open>node_id\<close> that element's \<open>ref\<close> and \<open>position\<close>
  its zero-based index in that sequence, so the positions are exactly 0, 1, 2, ...; it
  returns whenever no attribute it reads is missing; and for a way whose children have no
  children of their own, the nd elements found are exactly the nd children.
\<close>

theorem way_nodes_positions:
  "(\<forall>x. extract_way e WAY_FIELDS pc d = Inr x \<longrightarrow>
      length (way_nodes x) = length (iter ''nd'' e)
      \<and> map position (way_nodes x) = [0..<length (iter ''nd'' e)]
      \<and> (\<forall>n<length (iter ''nd'' e).
            attrib (iter ''nd'' e ! n) ''ref'' = Some (node_id (way_nodes x ! n))
            \<and> attrib e ''id'' = Some (wn_id (way_nodes x ! n))
            \<and> position (way_nodes x ! n) = n))
   \<and> (list_all (\<lambda>f. attrib e f \<noteq> None) WAY_FIELDS \<and> tags_complete e
        \<and> list_all (\<lambda>n. attrib n ''ref'' \<noteq> None) (iter ''nd'' e)
      \<longrightarrow> (\<exists>x. extract_way e WAY_FIELDS pc d = Inr x))
   \<and> (tag e = ''way'' \<and> (\<forall>c\<in>set (children e). children c = [])
      \<longrightarrow> iter ''nd'' e = filter (\<lambda>c. tag c = ''nd'') (children e))"
proof (intro conjI allI impI)
  fix x assume x: "extract_way e WAY_FIELDS pc d = Inr x"
  then have w: "way_nodes x = way_node_rows e"
    and refs: "\<forall>nd\<in>set (iter ''nd'' e). attrib nd ''ref'' \<noteq> None"
    and flds: "\<forall>f\<in>set WAY_FIELDS. attrib e f \<noteq> None"
    by (simp_all add: extract_way_Inr)
  from flds have id: "attrib e ''id'' \<noteq> None" by (simp add: WAY_FIELDS_def)
  show "length (way_nodes x) = length (iter ''nd'' e)"
    unfolding w by (simp add: way_node_rows_def)
  show "map position (way_nodes x) = [0..<length (iter ''nd'' e)]"
    unfolding w by (rule way_node_rows_positions)
  fix n assume n: "n < length (iter ''nd'' e)"
  then have "iter ''nd'' e ! n \<in> set (iter ''nd'' e)" by simp
  with refs have "attrib (iter ''nd'' e ! n) ''ref'' \<noteq> None" by blast
  with id n have r: "attrib (iter ''nd'' e ! n) ''ref'' = Some (node_id (way_nodes x ! n))
            \<and> attrib e ''id'' = Some (wn_id (way_nodes x ! n))
            \<and> position (way_nodes x ! n) = n"
    unfolding w by (auto simp: way_node_rows_nth)
  from r show "attrib (iter ''nd'' e ! n) ''ref'' = Some (node_id (way_nodes x ! n))" by simp
  from r show "attrib e ''id'' = Some (wn_id (way_nodes x ! n))" by simp
  from r show "position (way_nodes x ! n) = n" by simp
next
  assume "list_all (\<lambda>f. attrib e f \<noteq> None) WAY_FIELDS \<and> tags_complete e
        \<and> list_all (\<lambda>n. attrib n ''ref'' \<noteq> None) (iter ''nd'' e)"
  then show "\<exists>x. extract_way e WAY_FIELDS pc d = Inr x"
    by (simp only: extract_way_returns)
next
  assume "tag e = ''way'' \<and> (\<forall>c\<in>set (children e). children c = [])"
  then show "iter ''nd'' e = filter (\<lambda>c. tag c = ''nd'') (children e)"
    by (intro iter_flat) simp_all
qed

theorem way_nodes_positions_witness:
  "map_sum id way_nodes
     (extract_way (way_with [the_nd ''11'', the_tag ''highway'' ''path'', the_nd ''12'', the_nd ''13''])
        WAY_FIELDS PROBLEMCHARS ''regular'')
   = Inr [\<lparr>wn_id = ''9'', node_id = ''11'', position = 0\<rparr>,
          \<lparr>wn_id = ''9'', node_id = ''12'', position = 1\<rparr>,
          \<lparr>wn_id = ''9'', node_id = ''13'', position = 2\<rparr>]
   \<and> (\<exists>x. extract_way (way_with [the_nd ''11'', the_tag ''highway'' ''path'', the_nd ''12'', the_nd ''13''])
              WAY_FIELDS PROBLEMCHARS ''regular'' = Inr x
          \<and> map position (way_nodes x) = [0..<3])"
proof
  let ?w = "way_with [the_nd ''11'', the_tag ''highway'' ''path'', the_nd ''12'', the_nd ''13'']"
  show "map_sum id way_nodes (extract_way ?w WAY_FIELDS PROBLEMCHARS ''regular'')
   = Inr [\<lparr>wn_id = ''9'', node_id = ''11'', position = 0\<rparr>,
          \<lparr>wn_id = ''9'', node_id = ''12'', position = 1\<rparr>,
          \<lparr>wn_id = ''9'', node_id = ''13'', position = 2\<rparr>]"
    by code_simp
  have c: "list_all (\<lambda>f. attrib ?w f \<noteq> None) WAY_FIELDS \<and> tags_complete ?w
        \<and> list_all (\<lambda>n. attrib n ''ref'' \<noteq> None) (iter ''nd'' ?w)"
    by (simp add: way_with_def the_nd_def the_tag_def WAY_FIELDS_def tags_complete_def)
  have l: "length (iter ''nd'' ?w) = 3"
    by (simp add: way_with_def the_nd_def the_tag_def)
  from way_nodes_positions [where e = ?w and pc = PROBLEMCHARS and d = "''regular''"] c
  obtain x where x: "extract_way ?w WAY_FIELDS PROBLEMCHARS ''regular'' = Inr x" by blast
  with way_nodes_positions [where e = ?w and pc = PROBLEMCHARS and d = "''regular''"]
  have "map position (way_nodes x) = [0..<length (iter ''nd'' ?w)]" by blast
  with x l show "\<exists>x. extract_way ?w WAY_FIELDS PROBLEMCHARS ''regular'' = Inr x
          \<and> map position (way_nodes x) = [0..<3]"
    by (simp only:) blast
qed




text \<open>
  C2: a tag whose key is \<open>postcode\<close> and whose raw value is not a valid postal code should
  get the value \<open>fixme:\<close> followed by the raw value, unchanged. The code prefixes the value
  it has at that point, which has already gone through \<open>update_street_name\<close>: for the raw
  value \<open>9819 NE\<close>, not a valid postal code, both \<open>extract_node\<close> and \<open>extract_way\<close> emit
  \<open>fixme:9819 Northeast\<close>.
\<close>

theorem postcode_fixme_street_expanded:
  "update_postcode ''9819 NE'' True = (True, ''9819 NE'')
   \<and> map_sum id node_tags
       (extract_node (node_with_tag ''addr:postcode'' ''9819 NE'') NODE_FIELDS PROBLEMCHARS ''regular'')
     = Inr [\<lparr>tag_id = ''1'', tag_key = ''postcode'', tag_value = ''fixme:9819 Northeast'',
              tag_type = ''addr''\<rparr>]
   \<and> map_sum id way_tags
       (extract_way (way_with [the_tag ''addr:postcode'' ''9819 NE'']) WAY_FIELDS PROBLEMCHARS ''regular'')
     = Inr [\<lparr>tag_id = ''9'', tag_key = ''postcode'', tag_value = ''fixme:9819 Northeast'',
              tag_type = ''addr''\<rparr>]"
proof (intro conjI)
  show "update_postcode ''9819 NE'' True = (True, ''9819 NE'')" by code_simp
  show "map_sum id node_tags
       (extract_node (node_with_tag ''addr:postcode'' ''9819 NE'') NODE_FIELDS PROBLEMCHARS ''regular'')
     = Inr [\<lparr>tag_id = ''1'', tag_key = ''postcode'', tag_value = ''fixme:9819 Northeast'',
              tag_type = ''addr''\<rparr>]" by code_simp
  show "map_sum id way_tags
       (extract_way (way_with [the_tag ''addr:postcode'' ''9819 NE'']) WAY_FIELDS PROBLEMCHARS ''regular'')
     = Inr [\<lparr>tag_id = ''9'', tag_key = ''postcode'', tag_value = ''fixme:9819 Northeast'',
              tag_type = ''addr''\<rparr>]" by code_simp
qed

text \<open>
  C9: \<open>extract_node\<close> and \<open>extract_way\<close> copy each field of the kind's field list from the
  element's attributes into the attribute record, which holds nothing else; if a field is
  absent from the element the extraction fails with the \<open>KeyError\<close> of a missing field and
  produces no record; and it does return when the fields, and the attributes read from the
  tag and nd elements, are all present.
\<close>

theorem attribs_copied_or_missing:
  "(\<forall>x. extract_node e NODE_FIELDS pc d = Inr x \<longrightarrow>
        (\<exists>tags. x = NodeDict (attrib e |` set NODE_FIELDS) tags))
   \<and> ((\<exists>f\<in>set NODE_FIELDS. attrib e f = None) \<longrightarrow>
        (\<exists>f\<in>set NODE_FIELDS. attrib e f = None
           \<and> extract_node e NODE_FIELDS pc d = Inl (KeyError f)))
   \<and> (list_all (\<lambda>f. attrib e f \<noteq> None) NODE_FIELDS \<and> tags_complete e \<longrightarrow>
        (\<exists>x. extract_node e NODE_FIELDS pc d = Inr x))
   \<and> (\<forall>x. extract_way e WAY_FIELDS pc d = Inr x \<longrightarrow>
        (\<exists>nodes tags. x = WayDict (attrib e |` set WAY_FIELDS) nodes tags))
   \<and> ((\<exists>f\<in>set WAY_FIELDS. attrib e f = None) \<longrightarrow>
        (\<exists>f\<in>set WAY_FIELDS. attrib e f = None
           \<and> extract_way e WAY_FIELDS pc d = Inl (KeyError f)))
   \<and> (list_all (\<lambda>f. attrib e f \<noteq> None) WAY_FIELDS \<and> tags_complete e
        \<and> list_all (\<lambda>n. attrib n ''ref'' \<noteq> None) (iter ''nd'' e) \<longrightarrow>
        (\<exists>x. extract_way e WAY_FIELDS pc d = Inr x))"
proof (intro conjI allI impI)
  fix x assume "extract_node e NODE_FIELDS pc d = Inr x"
  then show "\<exists>tags. x = NodeDict (attrib e |` set NODE_FIELDS) tags"
    by (simp add: extract_node_Inr)
next
  assume "\<exists>f\<in>set NODE_FIELDS. attrib e f = None"
  then show "\<exists>f\<in>set NODE_FIELDS. attrib e f = None
           \<and> extract_node e NODE_FIELDS pc d = Inl (KeyError f)"
    by (rule extract_node_missing)
next
  assume "list_all (\<lambda>f. attrib e f \<noteq> None) NODE_FIELDS \<and> tags_complete e"
  then show "\<exists>x. extract_node e NODE_FIELDS pc d = Inr x"
    by (simp only: extract_node_returns)
next
  fix x assume "extract_way e WAY_FIELDS pc d = Inr x"
  then show "\<exists>nodes tags. x = WayDict (attrib e |` set WAY_FIELDS) nodes tags"
    by (simp add: extract_way_Inr)
next
  assume "\<exists>f\<in>set WAY_FIELDS. attrib e f = None"
  then show "\<exists>f\<in>set WAY_FIELDS. attrib e f = None
           \<and> extract_way e WAY_FIELDS pc d = Inl (KeyError f)"
    by (rule extract_way_missing)
next
  assume "list_all (\<lambda>f. attrib e f \<noteq> None) WAY_FIELDS \<and> tags_complete e
        \<and> list_all (\<lambda>n. attrib n ''ref'' \<noteq> None) (iter ''nd'' e)"
  then show "\<exists>x. extract_way e WAY_FIELDS pc d = Inr x"
    by (simp only: extract_way_returns)
qed

theorem attribs_copied_or_missing_witness:
  "extract_node node_without_uid NODE_FIELDS PROBLEMCHARS ''regular'' = Inl (KeyError ''uid'')
   \<and> (\<exists>tags. extract_node (node_with_tag ''addr:postcode'' ''98199'') NODE_FIELDS PROBLEMCHARS ''regular''
        = Inr (NodeDict (attrib (node_with_tag ''addr:postcode'' ''98199'') |` set NODE_FIELDS) tags))"
proof
  have m: "\<exists>f\<in>set NODE_FIELDS. attrib node_without_uid f = None"
    by (simp add: node_without_uid_def NODE_FIELDS_def)
  with attribs_copied_or_missing [where e = node_without_uid and pc = PROBLEMCHARS and d = "''regular''"]
  obtain f where f: "f \<in> set NODE_FIELDS" "attrib node_without_uid f = None"
    "extract_node node_without_uid NODE_FIELDS PROBLEMCHARS ''regular'' = Inl (KeyError f)"
    by blast
  from f(1,2) have "f = ''uid''"
    by (auto simp: node_without_uid_def NODE_FIELDS_def split: if_splits)
  with f(3) show "extract_node node_without_uid NODE_FIELDS PROBLEMCHARS ''regular'' = Inl (KeyError ''uid'')"
    by simp
  let ?n = "node_with_tag ''addr:postcode'' ''98199''"
  have c: "list_all (\<lambda>f. attrib ?n f \<noteq> None) NODE_FIELDS \<and> tags_complete ?n"
    by (simp add: node_with_tag_def the_tag_def NODE_FIELDS_def tags_complete_def)
  with attribs_copied_or_missing [where e = ?n and pc = PROBLEMCHARS and d = "''regular''"]
  obtain x where x: "extract_node ?n NODE_FIELDS PROBLEMCHARS ''regular'' = Inr x" by blast
  with attribs_copied_or_missing [where e = ?n and pc = PROBLEMCHARS and d = "''regular''"]
  obtain tags where "x = NodeDict (attrib ?n |` set NODE_FIELDS) tags" by blast
  with x show "\<exists>tags. extract_node ?n NODE_FIELDS PROBLEMCHARS ''regular''
        = Inr (NodeDict (attrib ?n |` set NODE_FIELDS) tags)" by blast
qed

lemma extract_element_other:
  "tag e \<noteq> ''node'' \<Longrightarrow> tag e \<noteq> ''way'' \<Longrightarrow> extract_element e d = Inr None"
  by (simp add: extract_element_def)

lemma extract_element_node_way:
  assumes "tag e = ''node'' \<or> tag e = ''way''"
  shows "extract_element e d \<noteq> Inr None"
    and "has_attributes e \<Longrightarrow> \<exists>x. extract_element e d = Inr (Some x)"
    and "\<not> has_attributes e \<Longrightarrow> \<exists>k. extract_element e d = Inl (KeyError k)"
proof -
  show "extract_element e d \<noteq> Inr None"
    using assms by (auto simp: extract_element_def map_sum_def split: sum.splits)
  show "\<exists>x. extract_element e d = Inr (Some x)" if h: "has_attributes e"
  proof (cases "tag e = ''node''")
    case True
    with h have "\<exists>x. extract_node e NODE_FIELDS PROBLEMCHARS d = Inr x"
      by (simp add: has_attributes_def extract_node_returns)
    with True show ?thesis by (auto simp: extract_element_def)
  next
    case False
    with assms have w: "tag e = ''way''" by simp
    from False h have "\<exists>x. extract_way e WAY_FIELDS PROBLEMCHARS d = Inr x"
      by (simp add: has_attributes_def extract_way_returns)
    with False w show ?thesis by (auto simp: extract_element_def)
  qed
  show "\<exists>k. extract_element e d = Inl (KeyError k)" if h: "\<not> has_attributes e"
  proof (cases "tag e = ''node''")
    case True
    with h have n: "\<not> (\<exists>x. extract_node e NODE_FIELDS PROBLEMCHARS d = Inr x)"
      by (simp add: has_attributes_def extract_node_returns)
    then obtain err where err: "extract_node e NODE_FIELDS PROBLEMCHARS d = Inl err"
      by (cases "extract_node e NODE_FIELDS PROBLEMCHARS d") auto
    from extract_node_Inl[OF err] obtain k where "err = KeyError k" by blast
    with err True show ?thesis by (auto simp: extract_element_def)
  next
    case False
    with assms have w: "tag e = ''way''" by simp
    from False h have n: "\<not> (\<exists>x. extract_way e WAY_FIELDS PROBLEMCHARS d = Inr x)"
      by (simp add: has_attributes_def extract_way_returns)
    then obtain err where err: "extract_way e WAY_FIELDS PROBLEMCHARS d = Inl err"
      by (cases "extract_way e WAY_FIELDS PROBLEMCHARS d") auto
    from extract_way_Inl[OF err] obtain k where "err = KeyError k" by blast
    with err False w show ?thesis by (auto simp: extract_element_def)
  qed
qed

text \<open>
  C10 (as stated): for an element that is neither a node nor a way \<open>extract_element\<close>
  returns \<open>None\<close> and the driver writes nothing; for a node or a way it always returns a
  record mapping. The last part fails: a node without its \<open>id\<close> attribute raises
  \<open>KeyError\<close>.
\<close>

theorem extract_element_raises_counterexample:
  "tag (Element ''node'' Map.empty []) = ''node''
   \<and> extract_element (Element ''node'' Map.empty []) ''regular'' = Inl (KeyError ''id'')"
  by (simp add: extract_element_def extract_node_def NODE_FIELDS_def)

text \<open>
  C10 (amended): for an element that is neither a node nor a way, \<open>extract_element\<close> returns
  \<open>None\<close>, the driver's loop passes over it without writing, and \<open>get_element\<close> as the
  driver calls it does not even yield it; for a node or a way \<open>extract_element\<close> never
  returns \<open>None\<close>: it returns a record mapping when no attribute it reads is missing, and
  raises \<open>KeyError\<close> otherwise.
\<close>

theorem extract_element_kinds:
  "(tag e \<noteq> ''node'' \<and> tag e \<noteq> ''way'' \<longrightarrow>
      extract_element e d = Inr None
      \<and> process_elements validate validator (e # rest) st
          = process_elements validate validator rest st
      \<and> e \<notin> set (get_element ended [''node'', ''way'']))
   \<and> (tag e = ''node'' \<or> tag e = ''way'' \<longrightarrow>
      extract_element e d \<noteq> Inr None
      \<and> (if has_attributes e then \<exists>x. extract_element e d = Inr (Some x)
          else \<exists>k. extract_element e d = Inl (KeyError k)))"
proof (intro conjI impI)
  assume o: "tag e \<noteq> ''node'' \<and> tag e \<noteq> ''way''"
  then show "extract_element e d = Inr None" by (simp add: extract_element_other)
  from o have "extract_element e ''regular'' = Inr None" by (simp add: extract_element_other)
  then show "process_elements validate validator (e # rest) st
          = process_elements validate validator rest st"
    by simp
  from o show "e \<notin> set (get_element ended [''node'', ''way''])"
    by (simp add: get_element_def)
next
  assume k: "tag e = ''node'' \<or> tag e = ''way''"
  then show "extract_element e d \<noteq> Inr None" by (rule extract_element_node_way(1))
  from k show "if has_attributes e then \<exists>x. extract_element e d = Inr (Some x)
          else \<exists>k. extract_element e d = Inl (KeyError k)"
    using extract_element_node_way(2,3)[of e d] by simp
qed

theorem extract_element_kinds_witness:
  "extract_element (Element ''relation'' [''id'' \<mapsto> ''5''] []) ''regular'' = Inr None
   \<and> process_map [Element ''relation'' [''id'' \<mapsto> ''5''] []] True (\<lambda>el. True) = (opened, None)
   \<and> (\<exists>x. extract_element (node_with_tag ''addr:postcode'' ''98199'') ''regular'' = Inr (Some x))"
proof (intro conjI)
  let ?r = "Element ''relation'' [''id'' \<mapsto> ''5''] []"
  have t: "tag ?r \<noteq> ''node'' \<and> tag ?r \<noteq> ''way''" by simp
  with extract_element_kinds [where e = ?r and d = "''regular''"]
  show "extract_element ?r ''regular'' = Inr None" by blast
  from t extract_element_kinds [where e = ?r and ended = "[?r]"]
  have "?r \<notin> set (get_element [?r] [''node'', ''way''])" by blast
  then have "get_element [?r] [''node'', ''way''] = []" by (simp add: get_element_def)
  then show "process_map [?r] True (\<lambda>el. True) = (opened, None)"
    by (simp add: process_map_def)
  let ?n = "node_with_tag ''addr:postcode'' ''98199''"
  have "tag ?n = ''node'' \<or> tag ?n = ''way''" by (simp add: node_with_tag_def)
  moreover have "has_attributes ?n"
    by (simp add: has_attributes_def node_with_tag_def the_tag_def NODE_FIELDS_def tags_complete_def)
  ultimately show "\<exists>x. extract_element ?n ''regular'' = Inr (Some x)"
    using extract_element_kinds [where e = ?n and d = "''regular''"] by simp
qed

end
